theory Spec2Isabelle
  imports Main "HOL-Library.Word" "HOL-Library.Monad_Syntax"
begin

unbundle bit_operations_syntax

section \<open>The machine: registers, the two data pins, the six PWM compare registers\<close>

text \<open>
  The program is the inline assembly of \<open>loop()\<close> in \<open>rgb2aled.ino\<close> (ATmega328P,
  16 MHz). Time is counted in clock cycles. The data-in pin is a function from the cycle
  number to the level of the line; an instruction that starts at cycle \<open>t\<close> and reads the pin
  (\<open>sbis\<close>, \<open>sbic\<close>) sees \<open>inp t\<close>. Cycle costs are those of the AVR instruction set, as the
  comments of the source count them: \<open>nop\<close>, \<open>ldi\<close>, \<open>lsl\<close>, \<open>ori\<close>, \<open>com\<close>, \<open>dec\<close> 1;
  \<open>sbi\<close>, \<open>cbi\<close>, \<open>sts\<close>, \<open>rjmp\<close> 2; \<open>jmp\<close> 3; \<open>sbis\<close>/\<open>sbic\<close> 1 when they do not skip,
  2 when they skip a one-word instruction, 3 when they skip the two-word \<open>jmp\<close>;
  \<open>brne\<close> 2 when taken, 1 otherwise.

  \<open>DATA_IN\<close> and \<open>DATA_OUT\<close> only choose which bit of PIND is read and which bit of
  PORTD is written; \<open>ALTERNATE_DATA_PINS\<close> swaps them and undefines \<open>TWO_LEDS\<close>. The model
  has one input line, one output pin and the flag \<open>two_leds\<close>.
\<close>

type_synonym byte = "8 word"
type_synonym input = "nat \<Rightarrow> bool"

datatype reg = R16 | R17 | R18 | R19 | R20 | R21 | R22

text \<open>
  \<open>sampled\<close> and \<open>out_edges\<close> are observation logs, written and never read by the code:
  the levels \<open>READ_BIT\<close> classified, in arrival order, and the writes to the data-out pin
  with the cycle at whose end the pin takes the level.
\<close>

record mstate =
  regs :: "reg \<Rightarrow> byte"
  clk :: nat
  pin_out :: bool
  OCR1A :: byte
  OCR1B :: byte
  OCR2A :: byte
  OCR2B :: byte
  OCR0B :: byte
  OCR0A :: byte
  sampled :: "bool list"
  out_edges :: "(nat \<times> bool) list"

definition tick :: "nat \<Rightarrow> mstate \<Rightarrow> mstate" where
  "tick n s = s\<lparr>clk := clk s + n\<rparr>"

definition nop :: "mstate \<Rightarrow> mstate" where
  "nop s = tick 1 s"

definition ldi :: "reg \<Rightarrow> byte \<Rightarrow> mstate \<Rightarrow> mstate" where
  "ldi r v s = tick 1 (s\<lparr>regs := (regs s)(r := v)\<rparr>)"

definition lsl :: "reg \<Rightarrow> mstate \<Rightarrow> mstate" where
  "lsl r s = tick 1 (s\<lparr>regs := (regs s)(r := push_bit 1 (regs s r))\<rparr>)"

definition ori :: "reg \<Rightarrow> byte \<Rightarrow> mstate \<Rightarrow> mstate" where
  "ori r k s = tick 1 (s\<lparr>regs := (regs s)(r := regs s r OR k)\<rparr>)"

definition com :: "reg \<Rightarrow> mstate \<Rightarrow> mstate" where
  "com r s = tick 1 (s\<lparr>regs := (regs s)(r := 255 - regs s r)\<rparr>)"

definition dec :: "reg \<Rightarrow> mstate \<Rightarrow> mstate" where
  "dec r s = tick 1 (s\<lparr>regs := (regs s)(r := regs s r - 1)\<rparr>)"

definition sbi :: "mstate \<Rightarrow> mstate" where
  "sbi s = tick 2 (s\<lparr>pin_out := True, out_edges := out_edges s @ [(clk s + 2, True)]\<rparr>)"

definition cbi :: "mstate \<Rightarrow> mstate" where
  "cbi s = tick 2 (s\<lparr>pin_out := False, out_edges := out_edges s @ [(clk s + 2, False)]\<rparr>)"

definition sts :: "((byte \<Rightarrow> byte) \<Rightarrow> mstate \<Rightarrow> mstate) \<Rightarrow> reg \<Rightarrow> mstate \<Rightarrow> mstate" where
  "sts ocr_update r s = tick 2 (ocr_update (\<lambda>_. regs s r) s)"

text \<open>\<open>setup()\<close>: the last line, the six compare registers set to 255 (LEDs off).\<close>

definition setup_ocr :: "mstate \<Rightarrow> mstate" where
  "setup_ocr s = s\<lparr>OCR0A := 255, OCR0B := 255, OCR1A := 255, OCR1B := 255,
                   OCR2A := 255, OCR2B := 255\<rparr>"

section \<open>The macros\<close>

text \<open>\<open>1: sbis 0x09, data_in; rjmp 1b\<close>: poll every 3 cycles until the line is high.\<close>

partial_function (option) wait_rise :: "input \<Rightarrow> mstate \<Rightarrow> mstate option" where
  "wait_rise inp s = (if inp (clk s) then Some (tick 2 s) else wait_rise inp (tick 3 s))"

text \<open>\<open>2: sbic 0x09, data_in; rjmp 2b\<close>: poll every 3 cycles until the line is low.\<close>

partial_function (option) wait_fall :: "input \<Rightarrow> mstate \<Rightarrow> mstate option" where
  "wait_fall inp s = (if inp (clk s) then wait_fall inp (tick 3 s) else Some (tick 2 s))"

text \<open>
  \<open>READ_BIT reg\<close>: wait for the rise, four \<open>nop\<close> and the \<open>lsl\<close>, then \<open>sbic\<close> samples the
  line and \<open>ori reg, 1\<close> runs when it is high, then wait for the fall.
\<close>

definition READ_BIT :: "reg \<Rightarrow> input \<Rightarrow> mstate \<Rightarrow> mstate option" where
  "READ_BIT r inp s =
     do {
       s1 \<leftarrow> wait_rise inp s;
       let s2 = lsl r (nop (nop (nop (nop s1))));
       let s3 = (if inp (clk s2)
                 then ori r 1 (tick 1 (s2\<lparr>sampled := sampled s2 @ [True]\<rparr>))
                 else tick 2 (s2\<lparr>sampled := sampled s2 @ [False]\<rparr>));
       wait_fall inp s3
     }"

definition READ_BYTE :: "reg \<Rightarrow> input \<Rightarrow> mstate \<Rightarrow> mstate option" where
  "READ_BYTE r inp s =
     READ_BIT r inp s \<bind> READ_BIT r inp \<bind> READ_BIT r inp \<bind> READ_BIT r inp \<bind>
     READ_BIT r inp \<bind> READ_BIT r inp \<bind> READ_BIT r inp \<bind> READ_BIT r inp"

section \<open>The blocks between labels\<close>

text \<open>\<open>two_leds\<close> is the build-time flag \<open>TWO_LEDS\<close>.\<close>

definition start_frame :: "bool \<Rightarrow> mstate \<Rightarrow> mstate" where
  "start_frame two_leds s =
     (if two_leds then s else ldi R21 255 (ldi R20 255 (ldi R19 255 s)))"

text \<open>
  \<open>r_chk\<close>: \<open>sbic; jmp wait_reset; dec r22; brne r_chk\<close>. A high line restarts the count
  at \<open>wait_reset\<close> (\<open>ldi r22, 250\<close>); 250 low polls in a row fall through to the capture.
\<close>

partial_function (option) r_chk :: "input \<Rightarrow> mstate \<Rightarrow> mstate option" where
  "r_chk inp s =
     (if inp (clk s) then r_chk inp (ldi R22 250 (tick 3 (tick 1 s)))
      else (let s1 = dec R22 (tick 3 s)
            in if regs s1 R22 \<noteq> 0 then r_chk inp (tick 2 s1) else Some (tick 1 s1)))"

definition wait_reset :: "input \<Rightarrow> mstate \<Rightarrow> mstate option" where
  "wait_reset inp s = r_chk inp (ldi R22 250 s)"

definition capture_start :: "bool \<Rightarrow> input \<Rightarrow> mstate \<Rightarrow> mstate option" where
  "capture_start two_leds inp s =
     do {
       s1 \<leftarrow> READ_BYTE R16 inp s \<bind> READ_BYTE R17 inp \<bind> READ_BYTE R18 inp;
       if two_leds
       then READ_BYTE R19 inp s1 \<bind> READ_BYTE R20 inp \<bind> READ_BYTE R21 inp
       else Some s1
     }"

text \<open>
  \<open>relay_entry\<close> is \<open>.rept 256\<close> of \<open>sbis; rjmp .+6; sbi; jmp relay_bit\<close>, then
  \<open>jmp update_now\<close>. The argument of \<open>relay_rept\<close> is the number of copies still ahead.
\<close>

datatype relay_exit = To_relay_bit mstate | To_update_now mstate

fun relay_rept :: "nat \<Rightarrow> input \<Rightarrow> mstate \<Rightarrow> relay_exit" where
  "relay_rept 0 inp s = To_update_now (tick 3 s)"
| "relay_rept (Suc n) inp s =
     (if inp (clk s) then To_relay_bit (tick 3 (sbi (tick 2 s)))
      else relay_rept n inp (tick 2 (tick 1 s)))"

definition relay_entry :: "input \<Rightarrow> mstate \<Rightarrow> relay_exit" where
  "relay_entry inp s = relay_rept 256 inp s"

text \<open>
  \<open>relay_bit\<close>: \<open>sbis; cbi; sbic; rjmp .+0; nop; cbi; jmp relay_entry\<close>. Both skip
  instructions read the line, at their own cycle.
\<close>

definition relay_bit :: "input \<Rightarrow> mstate \<Rightarrow> mstate" where
  "relay_bit inp s =
     (let s1 = (if inp (clk s) then tick 2 s else cbi (tick 1 s));
          s2 = (if inp (clk s1) then tick 2 (tick 1 s1) else tick 2 s1)
      in tick 3 (cbi (nop s2)))"

text \<open>The relay phase: \<open>relay_entry\<close> and \<open>relay_bit\<close> until the 256 checks see no edge.\<close>

partial_function (option) relay :: "input \<Rightarrow> mstate \<Rightarrow> mstate option" where
  "relay inp s =
     (case relay_entry inp s of
        To_update_now s' \<Rightarrow> Some s'
      | To_relay_bit s' \<Rightarrow> relay inp (relay_bit inp s'))"

text \<open>\<open>update_now\<close>: invert, commit to the compare registers, \<open>jmp capture_start\<close>.\<close>

definition update_now :: "bool \<Rightarrow> mstate \<Rightarrow> mstate" where
  "update_now two_leds s =
     (let s1 = com R18 (com R17 (com R16 s));
          s2 = (if two_leds then com R21 (com R20 (com R19 s1)) else s1);
          s3 = sts OCR2A_update R18 (sts OCR1B_update R16 (sts OCR1A_update R17 s2));
          s4 = sts OCR0A_update R21 (sts OCR0B_update R19 (sts OCR2B_update R20 s3))
      in tick 3 s4)"

text \<open>One turn of the loop from \<open>capture_start\<close> back to \<open>capture_start\<close>.\<close>

definition frame :: "bool \<Rightarrow> input \<Rightarrow> mstate \<Rightarrow> mstate option" where
  "frame two_leds inp s =
     do {
       s1 \<leftarrow> capture_start two_leds inp s;
       s2 \<leftarrow> relay inp s1;
       Some (update_now two_leds s2)
     }"

fun frames :: "nat \<Rightarrow> bool \<Rightarrow> input \<Rightarrow> mstate \<Rightarrow> mstate option" where
  "frames 0 two_leds inp s = Some s"
| "frames (Suc n) two_leds inp s = frame two_leds inp s \<bind> frames n two_leds inp"

text \<open>
  The program from power-on up to the \<open>capture_start\<close> that follows the \<open>n\<close>-th commit:
  \<open>setup()\<close>, \<open>start_frame\<close>, \<open>wait_reset\<close>, then \<open>n\<close> frames.
\<close>

definition run :: "nat \<Rightarrow> bool \<Rightarrow> input \<Rightarrow> mstate \<Rightarrow> mstate option" where
  "run n two_leds inp s =
     wait_reset inp (start_frame two_leds (setup_ocr s)) \<bind> frames n two_leds inp"

section \<open>Vocabulary of the statements\<close>

text \<open>
  \<open>msb_val\<close> reads a list of bits as a number, first bit most significant; \<open>msb_bits\<close>
  lists the bits of a byte in the order the wire sends them; \<open>byte_at i\<close> is the \<open>i\<close>-th
  group of eight in a list of sampled bits. \<open>duty\<close> is the six compare registers.
\<close>

definition msb_val :: "bool list \<Rightarrow> nat" where
  "msb_val bs = foldl (\<lambda>n b. 2 * n + of_bool b) 0 bs"

definition msb_bits :: "byte \<Rightarrow> bool list" where
  "msb_bits w = [bit w 7, bit w 6, bit w 5, bit w 4, bit w 3, bit w 2, bit w 1, bit w 0]"

definition byte_at :: "nat \<Rightarrow> bool list \<Rightarrow> byte" where
  "byte_at i bs = of_nat (msb_val (take 8 (drop (8 * i) bs)))"

definition duty :: "mstate \<Rightarrow> byte \<times> byte \<times> byte \<times> byte \<times> byte \<times> byte" where
  "duty s = (OCR1A s, OCR1B s, OCR2A s, OCR2B s, OCR0B s, OCR0A s)"

text \<open>
  What each block leaves behind when it returns, as a relation between the state before
  and the state after: the fields it may change and the values it gives them.
\<close>

definition rise_post :: "input \<Rightarrow> mstate \<Rightarrow> mstate \<Rightarrow> bool" where
  "rise_post inp s s' \<longleftrightarrow>
     (\<exists>k. s' = s\<lparr>clk := clk s + 3 * k + 2\<rparr> \<and> inp (clk s + 3 * k) \<and> (\<forall>j<k. \<not> inp (clk s + 3 * j)))"

definition fall_post :: "input \<Rightarrow> mstate \<Rightarrow> mstate \<Rightarrow> bool" where
  "fall_post inp s s' \<longleftrightarrow>
     (\<exists>k. s' = s\<lparr>clk := clk s + 3 * k + 2\<rparr> \<and> \<not> inp (clk s + 3 * k) \<and> (\<forall>j<k. inp (clk s + 3 * j)))"

definition bits_post :: "reg \<Rightarrow> mstate \<Rightarrow> bool list \<Rightarrow> mstate \<Rightarrow> bool" where
  "bits_post r s bs s' \<longleftrightarrow>
     (\<exists>t. clk s < t \<and>
        s' = s\<lparr>regs := (regs s)(r := regs s r * 2 ^ length bs + of_nat (msb_val bs)),
               clk := t, sampled := sampled s @ bs\<rparr>)"

definition byte_post :: "reg \<Rightarrow> mstate \<Rightarrow> bool list \<Rightarrow> mstate \<Rightarrow> bool" where
  "byte_post r s bs s' \<longleftrightarrow>
     length bs = 8 \<and>
     (\<exists>t. clk s < t \<and>
        s' = s\<lparr>regs := (regs s)(r := of_nat (msb_val bs)), clk := t, sampled := sampled s @ bs\<rparr>)"

definition capture_regs :: "bool \<Rightarrow> (reg \<Rightarrow> byte) \<Rightarrow> bool list \<Rightarrow> reg \<Rightarrow> byte" where
  "capture_regs two_leds rs bs =
     (if two_leds
      then rs(R16 := byte_at 0 bs, R17 := byte_at 1 bs, R18 := byte_at 2 bs,
              R19 := byte_at 3 bs, R20 := byte_at 4 bs, R21 := byte_at 5 bs)
      else rs(R16 := byte_at 0 bs, R17 := byte_at 1 bs, R18 := byte_at 2 bs))"

definition capture_post :: "bool \<Rightarrow> mstate \<Rightarrow> bool list \<Rightarrow> mstate \<Rightarrow> bool" where
  "capture_post two_leds s bs s' \<longleftrightarrow>
     length bs = (if two_leds then 48 else 24) \<and>
     (\<exists>t. clk s < t \<and>
        s' = s\<lparr>regs := capture_regs two_leds (regs s) bs, clk := t, sampled := sampled s @ bs\<rparr>)"

definition relay_post :: "mstate \<Rightarrow> mstate \<Rightarrow> bool" where
  "relay_post s s' \<longleftrightarrow>
     (\<exists>t p es. clk s < t \<and> (p \<longrightarrow> pin_out s) \<and> s' = s\<lparr>clk := t, pin_out := p, out_edges := es\<rparr>)"

definition commit_regs :: "bool \<Rightarrow> (reg \<Rightarrow> byte) \<Rightarrow> bool list \<Rightarrow> reg \<Rightarrow> byte" where
  "commit_regs two_leds rs bs =
     (if two_leds
      then rs(R16 := NOT (byte_at 0 bs), R17 := NOT (byte_at 1 bs), R18 := NOT (byte_at 2 bs),
              R19 := NOT (byte_at 3 bs), R20 := NOT (byte_at 4 bs), R21 := NOT (byte_at 5 bs))
      else rs(R16 := NOT (byte_at 0 bs), R17 := NOT (byte_at 1 bs), R18 := NOT (byte_at 2 bs)))"

definition frame_post :: "bool \<Rightarrow> mstate \<Rightarrow> bool list \<Rightarrow> mstate \<Rightarrow> bool" where
  "frame_post two_leds s bs s' \<longleftrightarrow>
     length bs = (if two_leds then 48 else 24) \<and>
     (\<exists>t p es. clk s < t \<and> (p \<longrightarrow> pin_out s) \<and>
        s' = s\<lparr>regs := commit_regs two_leds (regs s) bs, clk := t, pin_out := p,
               OCR1A := NOT (byte_at 1 bs), OCR1B := NOT (byte_at 0 bs),
               OCR2A := NOT (byte_at 2 bs),
               OCR2B := (if two_leds then NOT (byte_at 4 bs) else regs s R20),
               OCR0B := (if two_leds then NOT (byte_at 3 bs) else regs s R19),
               OCR0A := (if two_leds then NOT (byte_at 5 bs) else regs s R21),
               sampled := sampled s @ bs, out_edges := es\<rparr>)"

definition reset_post :: "mstate \<Rightarrow> mstate \<Rightarrow> bool" where
  "reset_post s s' \<longleftrightarrow> (\<exists>t. clk s < t \<and> s' = s\<lparr>regs := (regs s)(R22 := 0), clk := t\<rparr>)"

section \<open>Input signals and states of the worked scenarios\<close>

text \<open>
  \<open>ws_wave t0 bits\<close> is a train of pulses that starts at cycle \<open>t0\<close>: one bit every 20
  cycles (1.25 us at 16 MHz), high for 13 cycles (812.5 ns) for a 1 and for 6 cycles (375 ns)
  for a 0, low after the last bit. \<open>pulse a b\<close> is high from cycle \<open>a\<close> up to, not
  including, cycle \<open>b\<close>. \<open>cold\<close> is a power-on state: the output pin low, as the reset of
  PORTD leaves it, arbitrary register contents.
\<close>

definition ws_wave :: "nat \<Rightarrow> bool list \<Rightarrow> input" where
  "ws_wave t0 bits t \<longleftrightarrow>
     t0 \<le> t \<and> (t - t0) div 20 < length bits \<and>
     (t - t0) mod 20 < (if bits ! ((t - t0) div 20) then 13 else 6)"

definition pulse :: "nat \<Rightarrow> nat \<Rightarrow> input" where
  "pulse a b t \<longleftrightarrow> a \<le> t \<and> t < b"

definition cold :: mstate where
  "cold = \<lparr>regs = (\<lambda>_. 90), clk = 0, pin_out = False, OCR1A = 0, OCR1B = 0, OCR2A = 0,
           OCR2B = 0, OCR0B = 0, OCR0A = 0, sampled = [], out_edges = []\<rparr>"

text \<open>
  Scenario A, one pixel: after 1600 idle cycles the bytes green \<open>0x00\<close>, red \<open>0xFF\<close>,
  blue \<open>0x80\<close>, then 40 more bits, then silence. \<open>sync_a\<close>, \<open>capt_a\<close>, \<open>idle_a\<close> are
  the states at the first \<open>capture_start\<close>, at \<open>relay_entry\<close> and at \<open>update_now\<close>;
  \<open>edges_a\<close> is what the relay wrote to the output pin.
\<close>

definition bits_a :: "bool list" where
  "bits_a = msb_bits 0 @ msb_bits 255 @ msb_bits 128"

definition relayed_a :: "bool list" where
  "relayed_a = [True, False, True, False, False, True, False, True,
                False, False, False, False, True, True, True, True,
                True, True, True, True, False, False, False, False,
                False, False, True, True, True, True, False, False,
                True, False, False, False, False, False, False, True]"

definition scen_a :: input where
  "scen_a = ws_wave 1600 (bits_a @ relayed_a)"

definition sync_a :: mstate where
  "sync_a = \<lparr>regs = (\<lambda>_. 90)(R19 := 255, R20 := 255, R21 := 255, R22 := 0),
         clk = 1503, pin_out = False, OCR1A = 255, OCR1B = 255, OCR2A = 255,
         OCR2B = 255, OCR0B = 255, OCR0A = 255, sampled = [], out_edges = []\<rparr>"

definition capt_a :: mstate where
  "capt_a = \<lparr>regs = (\<lambda>_. 90)(R19 := 255, R20 := 255, R21 := 255, R22 := 0, R16 := 0,
                                  R17 := 255, R18 := 128),
         clk = 2073, pin_out = False, OCR1A = 255, OCR1B = 255, OCR2A = 255,
         OCR2B = 255, OCR0B = 255, OCR0A = 255, sampled = bits_a, out_edges = []\<rparr>"

definition edges_a :: "(nat \<times> bool) list" where
  "edges_a =
     [(2086, True), (2097, False), (2104, True), (2110, False),
      (2115, False), (2125, True), (2136, False), (2146, True),
      (2152, False), (2157, False), (2164, True), (2170, False),
      (2175, False), (2185, True), (2196, False), (2206, True),
      (2212, False), (2217, False), (2224, True), (2235, False),
      (2245, True), (2251, False), (2256, False), (2266, True),
      (2272, False), (2277, False), (2284, True), (2290, False),
      (2295, False), (2305, True), (2311, False), (2316, False),
      (2326, True), (2337, False), (2344, True), (2355, False),
      (2365, True), (2376, False), (2386, True), (2397, False),
      (2404, True), (2415, False), (2425, True), (2436, False),
      (2446, True), (2457, False), (2464, True), (2475, False),
      (2485, True), (2491, False), (2496, False), (2506, True),
      (2512, False), (2517, False), (2524, True), (2530, False),
      (2535, False), (2545, True), (2551, False), (2556, False),
      (2566, True), (2572, False), (2577, False), (2584, True),
      (2590, False), (2595, False), (2605, True), (2616, False),
      (2626, True), (2637, False), (2644, True), (2655, False),
      (2665, True), (2676, False), (2686, True), (2692, False),
      (2697, False), (2704, True), (2710, False), (2715, False),
      (2725, True), (2736, False), (2746, True), (2752, False),
      (2757, False), (2764, True), (2770, False), (2775, False),
      (2785, True), (2791, False), (2796, False), (2806, True),
      (2812, False), (2817, False), (2824, True), (2830, False),
      (2835, False), (2845, True), (2851, False), (2856, False),
      (2866, True), (2877, False)]"

definition idle_a :: mstate where
  "idle_a = capt_a\<lparr>clk := 3651, out_edges := edges_a\<rparr>"

text \<open>
  Short frames: one pixel (\<open>0xA6\<close>, \<open>0x3C\<close>, \<open>0x0F\<close>) sent at cycle 1600 and again at
  cycle 3200, with an idle gap of 1120 cycles (70 us) in between; \<open>one_short_frame\<close> is the
  first of the two alone. The \<open>_b\<close> states are those of the two-pixel build, the \<open>_c\<close>
  states those of the one-pixel build.
\<close>

definition px :: "bool list" where
  "px = msb_bits 166 @ msb_bits 60 @ msb_bits 15"

definition two_short_frames :: input where
  "two_short_frames t \<longleftrightarrow> ws_wave 1600 px t \<or> ws_wave 3200 px t"

definition one_short_frame :: input where
  "one_short_frame = ws_wave 1600 px"

definition sync_b :: mstate where
  "sync_b = \<lparr>regs = (\<lambda>_. 90)(R22 := 0),
         clk = 1500, pin_out = False, OCR1A = 255, OCR1B = 255, OCR2A = 255,
         OCR2B = 255, OCR0B = 255, OCR0A = 255, sampled = [], out_edges = []\<rparr>"

definition byte_b :: mstate where
  "byte_b = \<lparr>regs = (\<lambda>_. 90)(R22 := 0, R16 := 166),
         clk = 1753, pin_out = False, OCR1A = 255, OCR1B = 255, OCR2A = 255,
         OCR2B = 255, OCR0B = 255, OCR0A = 255,
         sampled = [True, False, True, False, False, True, True, False], out_edges = []\<rparr>"

definition half_b :: mstate where
  "half_b = \<lparr>regs = (\<lambda>_. 90)(R22 := 0, R16 := 166, R17 := 60, R18 := 15),
         clk = 2076, pin_out = False, OCR1A = 255, OCR1B = 255, OCR2A = 255,
         OCR2B = 255, OCR0B = 255, OCR0A = 255, sampled = px, out_edges = []\<rparr>"

definition capt_b :: mstate where
  "capt_b = \<lparr>regs = (\<lambda>_. 90)(R22 := 0, R16 := 166, R17 := 60, R18 := 15,
                                  R19 := 166, R20 := 60, R21 := 15),
         clk = 3675, pin_out = False, OCR1A = 255, OCR1B = 255, OCR2A = 255,
         OCR2B = 255, OCR0B = 255, OCR0A = 255, sampled = px @ px, out_edges = []\<rparr>"

definition sync_c :: mstate where
  "sync_c = \<lparr>regs = (\<lambda>_. 90)(R19 := 255, R20 := 255, R21 := 255, R22 := 0),
         clk = 1503, pin_out = False, OCR1A = 255, OCR1B = 255, OCR2A = 255,
         OCR2B = 255, OCR0B = 255, OCR0A = 255, sampled = [], out_edges = []\<rparr>"

definition capt_c :: mstate where
  "capt_c = \<lparr>regs = (\<lambda>_. 90)(R19 := 255, R20 := 255, R21 := 255, R22 := 0,
                                  R16 := 166, R17 := 60, R18 := 15),
         clk = 2076, pin_out = False, OCR1A = 255, OCR1B = 255, OCR2A = 255,
         OCR2B = 255, OCR0B = 255, OCR0A = 255, sampled = px, out_edges = []\<rparr>"

definition done_c2 :: mstate where
  "done_c2 = \<lparr>regs = (\<lambda>_. 90)(R19 := 255, R20 := 255, R21 := 255, R22 := 0,
                                   R16 := 89, R17 := 195, R18 := 240),
         clk = 4464, pin_out = False, OCR1A = 195, OCR1B = 89, OCR2A = 240,
         OCR2B = 255, OCR0B = 255, OCR0A = 255, sampled = px @ px, out_edges = []\<rparr>"

section \<open>What the blocks do\<close>

lemmas instr_defs = tick_def nop_def ldi_def lsl_def ori_def com_def dec_def sbi_def cbi_def sts_def

lemma rise_post_now: "inp (clk s) \<Longrightarrow> rise_post inp s (tick 2 s)"
  unfolding rise_post_def by (intro exI[where x=0]) (simp add: tick_def)

lemma rise_post_later:
  assumes "\<not> inp (clk s)" and "rise_post inp (tick 3 s) s'"
  shows "rise_post inp s s'"
proof -
  from assms(2) obtain k where k: "s' = tick 3 s\<lparr>clk := clk (tick 3 s) + 3 * k + 2\<rparr>"
      "inp (clk (tick 3 s) + 3 * k)" "\<forall>j<k. \<not> inp (clk (tick 3 s) + 3 * j)"
    unfolding rise_post_def by blast
  have "\<not> inp (clk s + 3 * j)" if "j < Suc k" for j
  proof (cases j)
    case 0 with assms(1) show ?thesis by simp
  next
    case (Suc i)
    with that k(3) have "\<not> inp (clk (tick 3 s) + 3 * i)" by simp
    then show ?thesis using Suc by (simp add: tick_def add.assoc)
  qed
  with k show ?thesis unfolding rise_post_def
    by (intro exI[where x="Suc k"]) (simp add: tick_def add.assoc)
qed

lemma wait_rise_Some: "wait_rise inp s = Some s' \<Longrightarrow> rise_post inp s s'"
proof (rule wait_rise.raw_induct[where P = rise_post])
  fix wr inp s s'
  assume IH: "\<And>i t y. wr i t = Some y \<Longrightarrow> rise_post i t y"
    and eq: "(if inp (clk s) then Some (tick 2 s) else wr inp (tick 3 s)) = Some s'"
  show "rise_post inp s s'"
  proof (cases "inp (clk s)")
    case True
    with eq show ?thesis by (auto intro: rise_post_now)
  next
    case False
    with eq IH show ?thesis by (auto intro: rise_post_later)
  qed
qed

lemma fall_post_now: "\<not> inp (clk s) \<Longrightarrow> fall_post inp s (tick 2 s)"
  unfolding fall_post_def by (intro exI[where x=0]) (simp add: tick_def)

lemma fall_post_later:
  assumes "inp (clk s)" and "fall_post inp (tick 3 s) s'"
  shows "fall_post inp s s'"
proof -
  from assms(2) obtain k where k: "s' = tick 3 s\<lparr>clk := clk (tick 3 s) + 3 * k + 2\<rparr>"
      "\<not> inp (clk (tick 3 s) + 3 * k)" "\<forall>j<k. inp (clk (tick 3 s) + 3 * j)"
    unfolding fall_post_def by blast
  have "inp (clk s + 3 * j)" if "j < Suc k" for j
  proof (cases j)
    case 0 with assms(1) show ?thesis by simp
  next
    case (Suc i)
    with that k(3) have "inp (clk (tick 3 s) + 3 * i)" by simp
    then show ?thesis using Suc by (simp add: tick_def add.assoc)
  qed
  with k show ?thesis unfolding fall_post_def
    by (intro exI[where x="Suc k"]) (simp add: tick_def add.assoc)
qed

lemma wait_fall_Some: "wait_fall inp s = Some s' \<Longrightarrow> fall_post inp s s'"
proof (rule wait_fall.raw_induct[where P = fall_post])
  fix wf inp s s'
  assume IH: "\<And>i t y. wf i t = Some y \<Longrightarrow> fall_post i t y"
    and eq: "(if inp (clk s) then wf inp (tick 3 s) else Some (tick 2 s)) = Some s'"
  show "fall_post inp s s'"
  proof (cases "inp (clk s)")
    case True
    with eq IH show ?thesis by (auto intro: fall_post_later)
  next
    case False
    with eq show ?thesis by (auto intro: fall_post_now)
  qed
qed

lemma byte_256: "(256 :: byte) * w = 0"
proof -
  have "(256 :: byte) = 0" by simp
  then show ?thesis by (simp only: mult_zero_left)
qed

lemma com_is_NOT: "(255 :: byte) - x = NOT x"
  by (simp add: not_eq_complement)

lemma msb_val_snoc: "msb_val (bs @ [b]) = 2 * msb_val bs + of_bool b"
  by (simp add: msb_val_def)

lemma msb_val_append: "msb_val (bs @ cs) = msb_val bs * 2 ^ length cs + msb_val cs"
proof (induction cs rule: rev_induct)
  case Nil
  show ?case by (simp add: msb_val_def)
next
  case (snoc c cs)
  have "msb_val (bs @ cs @ [c]) = 2 * msb_val (bs @ cs) + of_bool c"
    using msb_val_snoc[of "bs @ cs" c] by simp
  with snoc show ?case by (simp add: msb_val_snoc algebra_simps)
qed

lemma msb_val_8:
  "msb_val [b1, b2, b3, b4, b5, b6, b7, b8] =
     128 * of_bool b1 + 64 * of_bool b2 + 32 * of_bool b3 + 16 * of_bool b4 +
     8 * of_bool b5 + 4 * of_bool b6 + 2 * of_bool b7 + of_bool b8"
  by (simp add: msb_val_def)

lemma READ_BIT_Some:
  assumes "READ_BIT r inp s = Some s'"
  shows "\<exists>b. bits_post r s [b] s'"
proof -
  from assms obtain s1 where s1: "wait_rise inp s = Some s1"
    and rest: "wait_fall inp (let s2 = lsl r (nop (nop (nop (nop s1)))) in
                 if inp (clk s2)
                 then ori r 1 (tick 1 (s2\<lparr>sampled := sampled s2 @ [True]\<rparr>))
                 else tick 2 (s2\<lparr>sampled := sampled s2 @ [False]\<rparr>)) = Some s'"
    unfolding READ_BIT_def by (auto simp: bind_eq_Some_conv Let_def)
  from wait_rise_Some[OF s1] obtain k where k: "s1 = s\<lparr>clk := clk s + 3 * k + 2\<rparr>"
    unfolding rise_post_def by blast
  define s2 where "s2 = lsl r (nop (nop (nop (nop s1))))"
  show ?thesis
  proof (cases "inp (clk s2)")
    case True
    with rest have "wait_fall inp (ori r 1 (tick 1 (s2\<lparr>sampled := sampled s2 @ [True]\<rparr>))) = Some s'"
      by (simp add: s2_def Let_def)
    from wait_fall_Some[OF this] obtain j where
      "s' = ori r 1 (tick 1 (s2\<lparr>sampled := sampled s2 @ [True]\<rparr>))
              \<lparr>clk := clk (ori r 1 (tick 1 (s2\<lparr>sampled := sampled s2 @ [True]\<rparr>))) + 3 * j + 2\<rparr>"
      unfolding fall_post_def by blast
    then have "bits_post r s [True] s'"
      unfolding bits_post_def s2_def k
      by (intro exI[where x="clk s + 3 * k + 3 * j + 11"])
         (simp add: instr_defs msb_val_def push_bit_eq_mult or_one_eq)
    then show ?thesis ..
  next
    case False
    with rest have "wait_fall inp (tick 2 (s2\<lparr>sampled := sampled s2 @ [False]\<rparr>)) = Some s'"
      by (simp add: s2_def Let_def)
    from wait_fall_Some[OF this] obtain j where
      "s' = tick 2 (s2\<lparr>sampled := sampled s2 @ [False]\<rparr>)
              \<lparr>clk := clk (tick 2 (s2\<lparr>sampled := sampled s2 @ [False]\<rparr>)) + 3 * j + 2\<rparr>"
      unfolding fall_post_def by blast
    then have "bits_post r s [False] s'"
      unfolding bits_post_def s2_def k
      by (intro exI[where x="clk s + 3 * k + 3 * j + 11"])
         (simp add: instr_defs msb_val_def push_bit_eq_mult)
    then show ?thesis ..
  qed
qed

lemma bits_post_trans:
  assumes "bits_post r s bs s1" and "bits_post r s1 cs s2"
  shows "bits_post r s (bs @ cs) s2"
proof -
  from assms(1) obtain t where t: "clk s < t"
    "s1 = s\<lparr>regs := (regs s)(r := regs s r * 2 ^ length bs + of_nat (msb_val bs)),
            clk := t, sampled := sampled s @ bs\<rparr>"
    unfolding bits_post_def by blast
  from assms(2) obtain u where u: "clk s1 < u"
    "s2 = s1\<lparr>regs := (regs s1)(r := regs s1 r * 2 ^ length cs + of_nat (msb_val cs)),
             clk := u, sampled := sampled s1 @ cs\<rparr>"
    unfolding bits_post_def by blast
  from t u(1) have "clk s < u" by simp
  moreover have "s2 = s\<lparr>regs := (regs s)(r := regs s r * 2 ^ length (bs @ cs) + of_nat (msb_val (bs @ cs))),
            clk := u, sampled := sampled s @ bs @ cs\<rparr>"
    unfolding u(2) t(2) by (simp add: msb_val_append power_add algebra_simps)
  ultimately show ?thesis unfolding bits_post_def by blast
qed

lemma READ_BIT_then:
  assumes "(READ_BIT r inp s \<bind> f) = Some s'"
  obtains b s1 where "bits_post r s [b] s1" and "f s1 = Some s'"
  using assms READ_BIT_Some by (fastforce simp: bind_eq_Some_conv)

lemma bits_post_8:
  assumes "bits_post r s bs s'" and "length bs = 8"
  shows "byte_post r s bs s'"
  using assms byte_256[of "regs s r"] unfolding bits_post_def byte_post_def
  by (simp add: mult.commute)

lemma READ_BYTE_Some:
  assumes "READ_BYTE r inp s = Some s'"
  shows "\<exists>bs. byte_post r s bs s'"
proof -
  let ?R = "READ_BIT r inp"
  from assms have e0: "(?R s \<bind> (\<lambda>s. ?R s \<bind> (\<lambda>s. ?R s \<bind> (\<lambda>s. ?R s \<bind> (\<lambda>s. ?R s \<bind>
      (\<lambda>s. ?R s \<bind> (\<lambda>s. ?R s \<bind> ?R))))))) = Some s'"
    unfolding READ_BYTE_def by (simp add: Option.bind_assoc)
  from e0 obtain b1 s1 where 1: "bits_post r s [b1] s1" and e1: "(?R s1 \<bind> (\<lambda>s. ?R s \<bind> (\<lambda>s. ?R s \<bind> (\<lambda>s. ?R s \<bind>
      (\<lambda>s. ?R s \<bind> (\<lambda>s. ?R s \<bind> ?R)))))) = Some s'"
    by (rule READ_BIT_then)
  from e1 obtain b2 s2 where 2: "bits_post r s1 [b2] s2" and e2: "(?R s2 \<bind> (\<lambda>s. ?R s \<bind> (\<lambda>s. ?R s \<bind>
      (\<lambda>s. ?R s \<bind> (\<lambda>s. ?R s \<bind> ?R))))) = Some s'"
    by (rule READ_BIT_then)
  from e2 obtain b3 s3 where 3: "bits_post r s2 [b3] s3" and e3: "(?R s3 \<bind> (\<lambda>s. ?R s \<bind>
      (\<lambda>s. ?R s \<bind> (\<lambda>s. ?R s \<bind> ?R)))) = Some s'"
    by (rule READ_BIT_then)
  from e3 obtain b4 s4 where 4: "bits_post r s3 [b4] s4" and e4: "(?R s4 \<bind>
      (\<lambda>s. ?R s \<bind> (\<lambda>s. ?R s \<bind> ?R))) = Some s'"
    by (rule READ_BIT_then)
  from e4 obtain b5 s5 where 5: "bits_post r s4 [b5] s5" and e5: "(?R s5 \<bind> (\<lambda>s. ?R s \<bind> ?R)) = Some s'"
    by (rule READ_BIT_then)
  from e5 obtain b6 s6 where 6: "bits_post r s5 [b6] s6" and e6: "(?R s6 \<bind> ?R) = Some s'"
    by (rule READ_BIT_then)
  from e6 obtain b7 s7 where 7: "bits_post r s6 [b7] s7" and e7: "?R s7 = Some s'"
    by (rule READ_BIT_then)
  from e7 obtain b8 where 8: "bits_post r s7 [b8] s'"
    using READ_BIT_Some by blast
  from 1 2 3 4 5 6 7 8 have "bits_post r s ([b1] @ [b2] @ [b3] @ [b4] @ [b5] @ [b6] @ [b7] @ [b8]) s'"
    by (blast intro: bits_post_trans)
  then have "byte_post r s [b1, b2, b3, b4, b5, b6, b7, b8] s'"
    by (intro bits_post_8) simp_all
  then show ?thesis ..
qed

lemma READ_BYTE_then:
  assumes "(READ_BYTE r inp s \<bind> f) = Some s'"
  obtains bs s1 where "byte_post r s bs s1" and "f s1 = Some s'"
  using assms READ_BYTE_Some by (fastforce simp: bind_eq_Some_conv)

lemma three_bytes:
  assumes "(READ_BYTE q inp s \<bind> READ_BYTE r inp \<bind> READ_BYTE u inp) = Some s'"
  shows "\<exists>bs t. length bs = 24 \<and> clk s < t \<and>
           s' = s\<lparr>regs := (regs s)(q := byte_at 0 bs, r := byte_at 1 bs, u := byte_at 2 bs),
                  clk := t, sampled := sampled s @ bs\<rparr>"
proof -
  from assms have "(READ_BYTE q inp s \<bind> (\<lambda>s. READ_BYTE r inp s \<bind> READ_BYTE u inp)) = Some s'"
    by (simp add: Option.bind_assoc)
  then obtain b0 s0 where 0: "byte_post q s b0 s0"
    and e0: "(READ_BYTE r inp s0 \<bind> READ_BYTE u inp) = Some s'"
    by (rule READ_BYTE_then)
  from e0 obtain b1 s1 where 1: "byte_post r s0 b1 s1" and e1: "READ_BYTE u inp s1 = Some s'"
    by (rule READ_BYTE_then)
  from e1 obtain b2 where 2: "byte_post u s1 b2 s'"
    using READ_BYTE_Some by blast
  from 0 obtain t0 where t0: "length b0 = 8" "clk s < t0"
    "s0 = s\<lparr>regs := (regs s)(q := of_nat (msb_val b0)), clk := t0, sampled := sampled s @ b0\<rparr>"
    unfolding byte_post_def by blast
  from 1 obtain t1 where t1: "length b1 = 8" "clk s0 < t1"
    "s1 = s0\<lparr>regs := (regs s0)(r := of_nat (msb_val b1)), clk := t1, sampled := sampled s0 @ b1\<rparr>"
    unfolding byte_post_def by blast
  from 2 obtain t2 where t2: "length b2 = 8" "clk s1 < t2"
    "s' = s1\<lparr>regs := (regs s1)(u := of_nat (msb_val b2)), clk := t2, sampled := sampled s1 @ b2\<rparr>"
    unfolding byte_post_def by blast
  have "length (b0 @ b1 @ b2) = 24" using t0(1) t1(1) t2(1) by simp
  moreover have "clk s < t2" using t0 t1 t2 by simp
  moreover have "s' = s\<lparr>regs := (regs s)(q := byte_at 0 (b0 @ b1 @ b2), r := byte_at 1 (b0 @ b1 @ b2),
                    u := byte_at 2 (b0 @ b1 @ b2)), clk := t2, sampled := sampled s @ b0 @ b1 @ b2\<rparr>"
    unfolding t2(3) t1(3) t0(3) using t0(1) t1(1) t2(1) by (simp add: byte_at_def)
  ultimately show ?thesis by blast
qed

lemma capture_start_Some:
  assumes "capture_start two_leds inp s = Some s'"
  shows "\<exists>bs. capture_post two_leds s bs s'"
proof (cases two_leds)
  case False
  with assms have "(READ_BYTE R16 inp s \<bind> READ_BYTE R17 inp \<bind> READ_BYTE R18 inp) = Some s'"
    unfolding capture_start_def by (simp add: bind_eq_Some_conv)
  from three_bytes[OF this] False show ?thesis
    unfolding capture_post_def capture_regs_def by auto
next
  case True
  with assms obtain s1 where a: "(READ_BYTE R16 inp s \<bind> READ_BYTE R17 inp \<bind> READ_BYTE R18 inp) = Some s1"
    and b: "(READ_BYTE R19 inp s1 \<bind> READ_BYTE R20 inp \<bind> READ_BYTE R21 inp) = Some s'"
    unfolding capture_start_def by (auto simp: bind_eq_Some_conv)
  from three_bytes[OF a] obtain bs t where bs: "length bs = 24" "clk s < t"
    "s1 = s\<lparr>regs := (regs s)(R16 := byte_at 0 bs, R17 := byte_at 1 bs, R18 := byte_at 2 bs),
                  clk := t, sampled := sampled s @ bs\<rparr>" by blast
  from three_bytes[OF b] obtain cs u where cs: "length cs = 24" "clk s1 < u"
    "s' = s1\<lparr>regs := (regs s1)(R19 := byte_at 0 cs, R20 := byte_at 1 cs, R21 := byte_at 2 cs),
                  clk := u, sampled := sampled s1 @ cs\<rparr>" by blast
  have "length (bs @ cs) = 48" using bs(1) cs(1) by simp
  moreover have "clk s < u" using bs cs by simp
  moreover have "s' = s\<lparr>regs := capture_regs True (regs s) (bs @ cs), clk := u,
                         sampled := sampled s @ bs @ cs\<rparr>"
    unfolding cs(3) bs(3) capture_regs_def using bs(1) cs(1) by (simp add: byte_at_def)
  ultimately have "capture_post True s (bs @ cs) s'"
    unfolding capture_post_def by (simp only: if_True append_assoc) blast
  then show ?thesis using True by (intro exI[where x="bs @ cs"]) simp
qed

lemma tick_tick: "tick m (tick n s) = tick (n + m) s"
  by (simp add: tick_def)

lemma clk_tick: "clk (tick n s) = clk s + n"
  by (simp add: tick_def)

lemma tick_same: "m = n \<Longrightarrow> tick m s = tick n s"
  by simp

lemma tick_fields:
  "regs (tick n s) = regs s" "pin_out (tick n s) = pin_out s"
  "OCR1A (tick n s) = OCR1A s" "OCR1B (tick n s) = OCR1B s" "OCR2A (tick n s) = OCR2A s"
  "OCR2B (tick n s) = OCR2B s" "OCR0B (tick n s) = OCR0B s" "OCR0A (tick n s) = OCR0A s"
  "sampled (tick n s) = sampled s" "out_edges (tick n s) = out_edges s"
  by (simp_all add: tick_def)

lemma sbi_tick:
  "sbi (tick n s) = tick (n + 2) (s\<lparr>pin_out := True, out_edges := out_edges s @ [(clk s + (n + 2), True)]\<rparr>)"
  by (simp add: sbi_def tick_def add.assoc)

lemma cbi_tick:
  "cbi (tick n s) = tick (n + 2) (s\<lparr>pin_out := False, out_edges := out_edges s @ [(clk s + (n + 2), False)]\<rparr>)"
  by (simp add: cbi_def tick_def add.assoc)

lemma relay_rept_idle:
  "(\<forall>k<n. \<not> inp (clk s + 3 * k)) \<Longrightarrow> relay_rept n inp s = To_update_now (tick (3 * n + 3) s)"
proof (induction n arbitrary: s)
  case 0
  show ?case by simp
next
  case (Suc n)
  from Suc.prems have now: "\<not> inp (clk s)" by auto
  have "\<forall>k<n. \<not> inp (clk (tick 3 s) + 3 * k)"
  proof (intro allI impI)
    fix k assume "k < n"
    with Suc.prems have "\<not> inp (clk s + 3 * Suc k)" by blast
    then show "\<not> inp (clk (tick 3 s) + 3 * k)" by (simp add: tick_def add.assoc)
  qed
  from Suc.IH[OF this] have "relay_rept n inp (tick 3 s) = To_update_now (tick (3 * n + 3) (tick 3 s))" .
  moreover have "tick (3 * n + 3) (tick 3 s) = tick (3 * Suc n + 3) s" by (simp add: tick_def)
  ultimately show ?case using now by (simp add: tick_tick del: One_nat_def)
qed

lemma relay_rept_edge:
  "k < n \<Longrightarrow> inp (clk s + 3 * k) \<Longrightarrow> (\<forall>j<k. \<not> inp (clk s + 3 * j)) \<Longrightarrow>
     relay_rept n inp s = To_relay_bit (tick 3 (sbi (tick (3 * k + 2) s)))"
proof (induction n arbitrary: s k)
  case 0
  then show ?case by simp
next
  case (Suc n)
  show ?case
  proof (cases k)
    case 0
    have "tick (3 * 0 + 2) s = tick 2 s" by (rule tick_same) simp
    with 0 Suc.prems show ?thesis by simp
  next
    case (Suc i)
    with Suc.prems have now: "\<not> inp (clk s)" by auto
    have i: "i < n" using Suc Suc.prems by simp
    have hi: "inp (clk (tick 3 s) + 3 * i)" using Suc.prems(2) Suc by (simp add: tick_def add.assoc)
    have lo: "\<forall>j<i. \<not> inp (clk (tick 3 s) + 3 * j)"
    proof (intro allI impI)
      fix j assume "j < i"
      with Suc have "Suc j < k" by simp
      with Suc.prems(3) have "\<not> inp (clk s + 3 * Suc j)" by blast
      then show "\<not> inp (clk (tick 3 s) + 3 * j)" by (simp add: tick_def add.assoc)
    qed
    have "tick (3 * i + 2) (tick 3 s) = tick (3 * Suc i + 2) s" by (simp add: tick_def)
    with Suc.IH[OF i hi lo] now Suc show ?thesis by (simp add: tick_tick del: One_nat_def)
  qed
qed

lemma relay_rept_To_update:
  "relay_rept n inp s = To_update_now s' \<Longrightarrow>
     s' = tick (3 * n + 3) s \<and> (\<forall>k<n. \<not> inp (clk s + 3 * k))"
proof (induction n arbitrary: s)
  case 0
  then show ?case by simp
next
  case (Suc n)
  from Suc.prems have now: "\<not> inp (clk s)" by (auto split: if_splits)
  with Suc.prems have "relay_rept n inp (tick 3 s) = To_update_now s'" by (simp add: tick_tick del: One_nat_def)
  from Suc.IH[OF this] have s': "s' = tick (3 * n + 3) (tick 3 s)"
    and lo: "\<forall>k<n. \<not> inp (clk (tick 3 s) + 3 * k)" by auto
  have "\<not> inp (clk s + 3 * k)" if "k < Suc n" for k
  proof (cases k)
    case 0 with now show ?thesis by simp
  next
    case (Suc i)
    with that lo have "\<not> inp (clk (tick 3 s) + 3 * i)" by simp
    then show ?thesis using Suc by (simp add: tick_def add.assoc)
  qed
  with s' show ?case by (simp add: tick_def)
qed

lemma relay_rept_To_bit:
  "relay_rept n inp s = To_relay_bit s' \<Longrightarrow>
     \<exists>k<n. s' = tick 3 (sbi (tick (3 * k + 2) s)) \<and> inp (clk s + 3 * k) \<and>
            (\<forall>j<k. \<not> inp (clk s + 3 * j))"
proof (induction n arbitrary: s)
  case 0
  then show ?case by simp
next
  case (Suc n)
  show ?case
  proof (cases "inp (clk s)")
    case True
    have "tick (3 * 0 + 2) s = tick 2 s" by (rule tick_same) simp
    with True Suc.prems show ?thesis by (intro exI[where x=0]) auto
  next
    case False
    with Suc.prems have "relay_rept n inp (tick 3 s) = To_relay_bit s'" by (simp add: tick_tick del: One_nat_def)
    from Suc.IH[OF this] obtain k where k: "k < n" "s' = tick 3 (sbi (tick (3 * k + 2) (tick 3 s)))"
      "inp (clk (tick 3 s) + 3 * k)" "\<forall>j<k. \<not> inp (clk (tick 3 s) + 3 * j)" by blast
    have "\<not> inp (clk s + 3 * j)" if "j < Suc k" for j
    proof (cases j)
      case 0 with False show ?thesis by simp
    next
      case (Suc i)
      with that k(4) have "\<not> inp (clk (tick 3 s) + 3 * i)" by simp
      then show ?thesis using Suc by (simp add: tick_def add.assoc)
    qed
    moreover have "tick (3 * k + 2) (tick 3 s) = tick (3 * Suc k + 2) s" by (simp add: tick_def)
    ultimately show ?thesis using k
      by (intro exI[where x="Suc k"]) (simp add: clk_tick add.assoc)
  qed
qed

lemma relay_bit_eq:
  "relay_bit inp s =
     s\<lparr>clk := clk s + (if inp (clk s) then (if inp (clk s + 2) then 11 else 10)
                        else (if inp (clk s + 3) then 12 else 11)),
       pin_out := False,
       out_edges := out_edges s @
          (if inp (clk s) then [(clk s + (if inp (clk s + 2) then 8 else 7), False)]
           else [(clk s + 3, False), (clk s + (if inp (clk s + 3) then 9 else 8), False)])\<rparr>"
proof (cases "inp (clk s)")
  case True
  then have s1: "relay_bit inp s =
      (let s2 = (if inp (clk s + 2) then tick 3 (tick 2 s) else tick 4 s) in tick 3 (cbi (nop s2)))"
    by (simp add: relay_bit_def Let_def clk_tick tick_tick)
  show ?thesis
  proof (cases "inp (clk s + 2)")
    case True
    with \<open>inp (clk s)\<close> show ?thesis unfolding s1 by (simp add: instr_defs)
  next
    case False
    with \<open>inp (clk s)\<close> show ?thesis unfolding s1 by (simp add: instr_defs)
  qed
next
  case False
  have c: "clk (cbi (tick 1 s)) = clk s + 3" by (simp add: cbi_tick clk_tick del: One_nat_def)
  from False have s1: "relay_bit inp s =
      (let s2 = (if inp (clk s + 3) then tick 2 (tick 1 (cbi (tick 1 s))) else tick 2 (cbi (tick 1 s)))
       in tick 3 (cbi (nop s2)))"
    by (simp add: relay_bit_def Let_def c del: One_nat_def)
  show ?thesis
  proof (cases "inp (clk s + 3)")
    case True
    with \<open>\<not> inp (clk s)\<close> show ?thesis unfolding s1 by (simp add: instr_defs)
  next
    case False
    with \<open>\<not> inp (clk s)\<close> show ?thesis unfolding s1 by (simp add: instr_defs)
  qed
qed

lemma relay_post_idle: "relay_post s (tick (3 * n + 3) s)"
  unfolding relay_post_def
  by (intro exI[where x="clk s + (3 * n + 3)"] exI[where x="pin_out s"] exI[where x="out_edges s"])
     (simp add: tick_def)

lemma relay_post_bit:
  assumes "relay_post (relay_bit inp (tick 3 (sbi (tick (3 * k + 2) s)))) s'"
  shows "relay_post s s'"
proof -
  from assms obtain t p es where a: "clk (relay_bit inp (tick 3 (sbi (tick (3 * k + 2) s)))) < t"
    "p \<longrightarrow> pin_out (relay_bit inp (tick 3 (sbi (tick (3 * k + 2) s))))"
    "s' = (relay_bit inp (tick 3 (sbi (tick (3 * k + 2) s))))\<lparr>clk := t, pin_out := p, out_edges := es\<rparr>"
    unfolding relay_post_def by blast
  from a(2) have p: "\<not> p" by (simp add: relay_bit_eq)
  from a(1) have t: "clk s < t" by (simp add: relay_bit_eq instr_defs split: if_splits)
  from a(3) have "s' = s\<lparr>clk := t, pin_out := p, out_edges := es\<rparr>"
    by (simp add: relay_bit_eq instr_defs)
  with p t show ?thesis unfolding relay_post_def by blast
qed

lemma relay_Some: "relay inp s = Some s' \<Longrightarrow> relay_post s s'"
proof (rule relay.raw_induct[where P = "\<lambda>inp s s'. relay_post s s'"])
  fix rl inp s s'
  assume IH: "\<And>i t y. rl i t = Some y \<Longrightarrow> relay_post t y"
    and eq: "(case relay_entry inp s of To_relay_bit s' \<Rightarrow> rl inp (relay_bit inp s')
               | To_update_now s' \<Rightarrow> Some s') = Some s'"
  show "relay_post s s'"
  proof (cases "relay_entry inp s")
    case (To_update_now u)
    with eq have "u = s'" by simp
    with To_update_now relay_rept_To_update[of 256 inp s s'] have "s' = tick (3 * 256 + 3) s"
      by (simp add: relay_entry_def)
    then show ?thesis by (simp only: relay_post_idle)
  next
    case (To_relay_bit e)
    with eq have "rl inp (relay_bit inp e) = Some s'" by simp
    from IH[OF this] have "relay_post (relay_bit inp e) s'" .
    moreover from To_relay_bit relay_rept_To_bit[of 256 inp s e]
    obtain k where "e = tick 3 (sbi (tick (3 * k + 2) s))" by (auto simp: relay_entry_def)
    ultimately show ?thesis using relay_post_bit by blast
  qed
qed

lemma update_now_eq:
  "update_now two_leds s =
     s\<lparr>regs := (if two_leds
                 then (regs s)(R16 := NOT (regs s R16), R17 := NOT (regs s R17), R18 := NOT (regs s R18),
                               R19 := NOT (regs s R19), R20 := NOT (regs s R20), R21 := NOT (regs s R21))
                 else (regs s)(R16 := NOT (regs s R16), R17 := NOT (regs s R17), R18 := NOT (regs s R18))),
       clk := clk s + (if two_leds then 21 else 18),
       OCR1A := NOT (regs s R17), OCR1B := NOT (regs s R16), OCR2A := NOT (regs s R18),
       OCR2B := (if two_leds then NOT (regs s R20) else regs s R20),
       OCR0B := (if two_leds then NOT (regs s R19) else regs s R19),
       OCR0A := (if two_leds then NOT (regs s R21) else regs s R21)\<rparr>"
  by (simp add: update_now_def instr_defs Let_def com_is_NOT)

lemma frame_Some:
  assumes "frame two_leds inp s = Some s'"
  shows "\<exists>bs. frame_post two_leds s bs s'"
proof -
  from assms obtain s1 s2 where c: "capture_start two_leds inp s = Some s1"
    and r: "relay inp s1 = Some s2" and u: "s' = update_now two_leds s2"
    unfolding frame_def by (auto simp: bind_eq_Some_conv)
  from capture_start_Some[OF c] obtain bs t where bs: "length bs = (if two_leds then 48 else 24)"
    "clk s < t"
    "s1 = s\<lparr>regs := capture_regs two_leds (regs s) bs, clk := t, sampled := sampled s @ bs\<rparr>"
    unfolding capture_post_def by blast
  from relay_Some[OF r] obtain t' p es where rl: "clk s1 < t'" "p \<longrightarrow> pin_out s1"
    "s2 = s1\<lparr>clk := t', pin_out := p, out_edges := es\<rparr>"
    unfolding relay_post_def by blast
  have "clk s < t' + (if two_leds then 21 else 18)" using bs(2) rl(1) by (simp add: bs(3))
  moreover have "p \<longrightarrow> pin_out s" using rl(2) by (simp add: bs(3))
  moreover have "s' = s\<lparr>regs := commit_regs two_leds (regs s) bs,
               clk := t' + (if two_leds then 21 else 18), pin_out := p,
               OCR1A := NOT (byte_at 1 bs), OCR1B := NOT (byte_at 0 bs),
               OCR2A := NOT (byte_at 2 bs),
               OCR2B := (if two_leds then NOT (byte_at 4 bs) else regs s R20),
               OCR0B := (if two_leds then NOT (byte_at 3 bs) else regs s R19),
               OCR0A := (if two_leds then NOT (byte_at 5 bs) else regs s R21),
               sampled := sampled s @ bs, out_edges := es\<rparr>"
    unfolding u update_now_eq rl(3) bs(3)
    by (cases two_leds) (simp_all add: commit_regs_def capture_regs_def)
  ultimately show ?thesis using bs(1) unfolding frame_post_def by blast
qed

lemma r_chk_Some: "r_chk inp s = Some s' \<Longrightarrow> reset_post s s'"
proof (rule r_chk.raw_induct[where P = "\<lambda>inp s s'. reset_post s s'"])
  fix rc inp s s'
  assume IH: "\<And>i t y. rc i t = Some y \<Longrightarrow> reset_post t y"
    and eq: "(if inp (clk s) then rc inp (ldi R22 250 (tick 3 (tick 1 s)))
              else (let s1 = dec R22 (tick 3 s)
                    in if regs s1 R22 \<noteq> 0 then rc inp (tick 2 s1) else Some (tick 1 s1))) = Some s'"
  show "reset_post s s'"
  proof (cases "inp (clk s)")
    case True
    with eq have "rc inp (ldi R22 250 (tick 3 (tick 1 s))) = Some s'" by simp
    from IH[OF this] obtain t where "clk (ldi R22 250 (tick 3 (tick 1 s))) < t"
      "s' = (ldi R22 250 (tick 3 (tick 1 s)))\<lparr>regs := (regs (ldi R22 250 (tick 3 (tick 1 s))))(R22 := 0), clk := t\<rparr>"
      unfolding reset_post_def by blast
    then have "clk s < t \<and> s' = s\<lparr>regs := (regs s)(R22 := 0), clk := t\<rparr>"
      by (simp add: instr_defs)
    then show ?thesis unfolding reset_post_def by blast
  next
    case False
    show ?thesis
    proof (cases "regs (dec R22 (tick 3 s)) R22 \<noteq> 0")
      case True
      with False eq have "rc inp (tick 2 (dec R22 (tick 3 s))) = Some s'" by (simp add: Let_def)
      from IH[OF this] obtain t where "clk (tick 2 (dec R22 (tick 3 s))) < t"
        "s' = (tick 2 (dec R22 (tick 3 s)))\<lparr>regs := (regs (tick 2 (dec R22 (tick 3 s))))(R22 := 0), clk := t\<rparr>"
        unfolding reset_post_def by blast
      then have "clk s < t \<and> s' = s\<lparr>regs := (regs s)(R22 := 0), clk := t\<rparr>"
        by (simp add: instr_defs)
      then show ?thesis unfolding reset_post_def by blast
    next
      case z: False
      with False eq have "s' = tick 1 (dec R22 (tick 3 s))" by (simp add: Let_def)
      with z have "clk s < clk s + 5 \<and> s' = s\<lparr>regs := (regs s)(R22 := 0), clk := clk s + 5\<rparr>"
        by (simp add: instr_defs)
      then show ?thesis unfolding reset_post_def by blast
    qed
  qed
qed

lemma wait_reset_Some: "wait_reset inp s = Some s' \<Longrightarrow> reset_post s s'"
proof -
  assume "wait_reset inp s = Some s'"
  then have "reset_post (ldi R22 250 s) s'" unfolding wait_reset_def by (rule r_chk_Some)
  then obtain t where "clk (ldi R22 250 s) < t"
    "s' = (ldi R22 250 s)\<lparr>regs := (regs (ldi R22 250 s))(R22 := 0), clk := t\<rparr>"
    unfolding reset_post_def by blast
  then have "clk s < t \<and> s' = s\<lparr>regs := (regs s)(R22 := 0), clk := t\<rparr>"
    by (simp add: instr_defs)
  then show ?thesis unfolding reset_post_def by blast
qed

lemma READ_BIT_needs_edge: "READ_BIT r inp s = Some s' \<Longrightarrow> \<exists>k. inp (clk s + 3 * k)"
proof -
  assume "READ_BIT r inp s = Some s'"
  then obtain s1 where "wait_rise inp s = Some s1"
    unfolding READ_BIT_def by (auto simp: bind_eq_Some_conv)
  from wait_rise_Some[OF this] show ?thesis unfolding rise_post_def by blast
qed

lemma READ_BYTE_needs_edge: "READ_BYTE r inp s = Some s' \<Longrightarrow> \<exists>k. inp (clk s + 3 * k)"
proof -
  assume "READ_BYTE r inp s = Some s'"
  then obtain s1 where "READ_BIT r inp s = Some s1"
    unfolding READ_BYTE_def by (auto simp: bind_eq_Some_conv)
  then show ?thesis by (rule READ_BIT_needs_edge)
qed

lemma capture_needs_edge: "capture_start two_leds inp s = Some s' \<Longrightarrow> \<exists>k. inp (clk s + 3 * k)"
proof -
  assume "capture_start two_leds inp s = Some s'"
  then obtain s1 where "READ_BYTE R16 inp s = Some s1"
    unfolding capture_start_def by (auto simp: bind_eq_Some_conv)
  then show ?thesis by (rule READ_BYTE_needs_edge)
qed

lemma r_chk_idle:
  "regs s R22 = of_nat c \<Longrightarrow> 0 < c \<Longrightarrow> c \<le> 250 \<Longrightarrow> (\<forall>k<c. \<not> inp (clk s + 6 * k)) \<Longrightarrow>
     r_chk inp s = Some (s\<lparr>regs := (regs s)(R22 := 0), clk := clk s + 6 * c - 1\<rparr>)"
proof (induction c arbitrary: s)
  case 0
  then show ?case by simp
next
  case (Suc c)
  from Suc.prems(4) have now: "\<not> inp (clk s)" by auto
  have dec: "regs (dec R22 (tick 3 s)) R22 = of_nat c"
    using Suc.prems(1) by (simp add: instr_defs)
  show ?case
  proof (cases "c = 0")
    case True
    with dec now show ?thesis
      by (subst r_chk.simps) (simp add: Let_def, simp add: instr_defs)
  next
    case False
    then have "0 < c" by simp
    moreover have "c \<le> 250" using Suc.prems(3) by simp
    moreover have "\<forall>k<c. \<not> inp (clk (tick 2 (dec R22 (tick 3 s))) + 6 * k)"
    proof (intro allI impI)
      fix k assume "k < c"
      then have "Suc k < Suc c" by simp
      with Suc.prems(4) have h: "\<not> inp (clk s + 6 * Suc k)" by blast
      have e: "clk (tick 2 (dec R22 (tick 3 s))) + 6 * k = clk s + 6 * Suc k"
        by (simp add: instr_defs)
      show "\<not> inp (clk (tick 2 (dec R22 (tick 3 s))) + 6 * k)"
        unfolding e by (rule h)
    qed
    moreover have "regs (tick 2 (dec R22 (tick 3 s))) R22 = of_nat c"
      using dec by (simp add: tick_def)
    ultimately have "r_chk inp (tick 2 (dec R22 (tick 3 s))) =
        Some ((tick 2 (dec R22 (tick 3 s)))\<lparr>regs := (regs (tick 2 (dec R22 (tick 3 s))))(R22 := 0),
              clk := clk (tick 2 (dec R22 (tick 3 s))) + 6 * c - 1\<rparr>)"
      by (rule Suc.IH[rotated])
    moreover have "(of_nat c :: byte) \<noteq> 0"
    proof -
      have "unat (of_nat c :: byte) = c" using \<open>c \<le> 250\<close> by (simp add: unat_of_nat)
      with \<open>0 < c\<close> show ?thesis by (metis unat_0 less_numeral_extra(3))
    qed
    ultimately show ?thesis using now dec \<open>0 < c\<close>
      by (subst r_chk.simps) (simp add: Let_def, simp add: instr_defs)
  qed
qed

lemma opt_bind_wcong: "m = m' \<Longrightarrow> Option.bind m f = Option.bind m' f"
  by simp

lemma wait_rise_hi: "inp (clk s) \<Longrightarrow> wait_rise inp s = Some (tick 2 s)"
  by (subst wait_rise.simps) simp

lemma wait_rise_lo: "\<not> inp (clk s) \<Longrightarrow> wait_rise inp s = wait_rise inp (tick 3 s)"
  by (subst wait_rise.simps) simp

lemma wait_fall_lo: "\<not> inp (clk s) \<Longrightarrow> wait_fall inp s = Some (tick 2 s)"
  by (subst wait_fall.simps) simp

lemma wait_fall_hi: "inp (clk s) \<Longrightarrow> wait_fall inp s = wait_fall inp (tick 3 s)"
  by (subst wait_fall.simps) simp

lemmas eval_waits = wait_rise_hi wait_rise_lo wait_fall_lo wait_fall_hi

lemma relay_rept_numeral:
  "relay_rept (numeral n) inp s =
     (if inp (clk s) then To_relay_bit (tick 3 (sbi (tick 2 s)))
      else relay_rept (pred_numeral n) inp (tick 3 s))"
  by (simp add: numeral_eq_Suc tick_tick del: One_nat_def)

lemma ws_wave_before: "t < t0 \<Longrightarrow> \<not> ws_wave t0 bits t"
  by (simp add: ws_wave_def)

lemma ws_wave_after: "t0 + 20 * length bits \<le> t \<Longrightarrow> \<not> ws_wave t0 bits t"
  by (auto simp: ws_wave_def)

lemma upt8: "[0..<8] = [0, 1, 2, 3, 4, 5, 6, 7]"
  by (simp add: upt_rec)

lemma byte_of_msb_bits: "(of_nat (msb_val (msb_bits w)) :: byte) = w"
proof -
  have "horner_sum of_bool 2 (map (bit w) [0..<8]) = take_bit 8 w"
    by (rule horner_sum_bit_eq_take_bit)
  moreover have "take_bit 8 w = w" by (simp add: take_bit_word_eq_self)
  ultimately have "w = horner_sum of_bool 2 (map (bit w) [0, 1, 2, 3, 4, 5, 6, 7])"
    by (simp add: upt8)
  also have "\<dots> = of_nat (msb_val (msb_bits w))"
    by (simp add: msb_bits_def msb_val_8 algebra_simps)
  finally show ?thesis by simp
qed

lemma length_msb_bits: "length (msb_bits w) = 8"
  by (simp add: msb_bits_def)

lemma byte_at_0: "byte_at 0 (msb_bits a @ bs) = a"
  by (simp add: byte_at_def length_msb_bits byte_of_msb_bits)

lemma byte_at_Suc: "byte_at (Suc i) (msb_bits a @ bs) = byte_at i bs"
  by (simp add: byte_at_def length_msb_bits)

lemma byte_at_last: "byte_at 0 (msb_bits a) = a"
  using byte_at_0[of a "[]"] by simp

lemma relay_idle_exit:
  assumes "\<forall>k<256. \<not> inp (clk s + 3 * k)"
  shows "relay_entry inp s = To_update_now (tick 771 s)" and "relay inp s = Some (tick 771 s)"
proof -
  from relay_rept_idle[OF assms] show e: "relay_entry inp s = To_update_now (tick 771 s)"
    by (simp add: relay_entry_def)
  show "relay inp s = Some (tick 771 s)" by (subst relay.simps) (simp add: e)
qed

lemma relay_edge_step:
  assumes "k < 256" and "inp (clk s + 3 * k)" and "\<forall>j<k. \<not> inp (clk s + 3 * j)"
  shows "relay_entry inp s = To_relay_bit (tick 3 (sbi (tick (3 * k + 2) s)))"
    and "relay inp s = relay inp (relay_bit inp (tick 3 (sbi (tick (3 * k + 2) s))))"
proof -
  from relay_rept_edge[OF assms]
  show e: "relay_entry inp s = To_relay_bit (tick 3 (sbi (tick (3 * k + 2) s)))"
    by (simp add: relay_entry_def)
  show "relay inp s = relay inp (relay_bit inp (tick 3 (sbi (tick (3 * k + 2) s))))"
    by (subst relay.simps) (simp add: e)
qed

lemma frame_needs_edge:
  assumes "frame two_leds inp s = Some s'"
  shows "\<exists>t\<ge>clk s. inp t"
proof -
  from assms obtain s1 where "capture_start two_leds inp s = Some s1"
    unfolding frame_def by (auto simp: bind_eq_Some_conv)
  from capture_needs_edge[OF this] obtain k where "inp (clk s + 3 * k)" ..
  then show ?thesis by (intro exI[where x="clk s + 3 * k"]) simp
qed

lemma frame_pin: "frame two_leds inp s = Some s' \<Longrightarrow> \<not> pin_out s \<Longrightarrow> \<not> pin_out s'"
proof -
  assume "frame two_leds inp s = Some s'" and low: "\<not> pin_out s"
  from frame_Some[OF this(1)] obtain bs where "frame_post two_leds s bs s'" ..
  then obtain t p es where "p \<longrightarrow> pin_out s" and
    "s' = s\<lparr>regs := commit_regs two_leds (regs s) bs, clk := t, pin_out := p,
               OCR1A := NOT (byte_at 1 bs), OCR1B := NOT (byte_at 0 bs),
               OCR2A := NOT (byte_at 2 bs),
               OCR2B := (if two_leds then NOT (byte_at 4 bs) else regs s R20),
               OCR0B := (if two_leds then NOT (byte_at 3 bs) else regs s R19),
               OCR0A := (if two_leds then NOT (byte_at 5 bs) else regs s R21),
               sampled := sampled s @ bs, out_edges := es\<rparr>"
    unfolding frame_post_def by blast
  with low show ?thesis by simp
qed

lemma frames_pin: "frames n two_leds inp s = Some s' \<Longrightarrow> \<not> pin_out s \<Longrightarrow> \<not> pin_out s'"
proof (induction n arbitrary: s)
  case 0
  then show ?case by simp
next
  case (Suc n)
  from Suc.prems(1) obtain s1 where f: "frame two_leds inp s = Some s1"
    and r: "frames n two_leds inp s1 = Some s'"
    by (auto simp: bind_eq_Some_conv)
  from frame_pin[OF f Suc.prems(2)] Suc.IH[OF r] show ?case by simp
qed

lemma run_split:
  assumes "run n two_leds inp s0 = Some s"
  obtains s1 where "wait_reset inp (start_frame two_leds (setup_ocr s0)) = Some s1"
    and "frames n two_leds inp s1 = Some s"
  using assms unfolding run_def by (auto simp: bind_eq_Some_conv)

lemma power_on_fields:
  assumes "wait_reset inp (start_frame two_leds (setup_ocr s0)) = Some s1"
  shows "pin_out s1 = pin_out s0"
    and "OCR2B s1 = 255" "OCR0B s1 = 255" "OCR0A s1 = 255"
    and "\<not> two_leds \<Longrightarrow> regs s1 R19 = 255 \<and> regs s1 R20 = 255 \<and> regs s1 R21 = 255"
    and "two_leds \<Longrightarrow> regs s1 R19 = regs s0 R19 \<and> regs s1 R20 = regs s0 R20 \<and> regs s1 R21 = regs s0 R21"
proof -
  from wait_reset_Some[OF assms] obtain t where
    s1: "s1 = (start_frame two_leds (setup_ocr s0))\<lparr>regs := (regs (start_frame two_leds (setup_ocr s0)))(R22 := 0), clk := t\<rparr>"
    unfolding reset_post_def by blast
  show "pin_out s1 = pin_out s0" "OCR2B s1 = 255" "OCR0B s1 = 255" "OCR0A s1 = 255"
    unfolding s1 by (simp_all add: start_frame_def setup_ocr_def instr_defs)
  show "\<not> two_leds \<Longrightarrow> regs s1 R19 = 255 \<and> regs s1 R20 = 255 \<and> regs s1 R21 = 255"
    unfolding s1 by (simp add: start_frame_def setup_ocr_def instr_defs)
  show "two_leds \<Longrightarrow> regs s1 R19 = regs s0 R19 \<and> regs s1 R20 = regs s0 R20 \<and> regs s1 R21 = regs s0 R21"
    unfolding s1 by (simp add: start_frame_def setup_ocr_def instr_defs)
qed

lemma frame_one_led_regs:
  assumes "frame False inp x = Some x'"
  shows "regs x' R19 = regs x R19 \<and> regs x' R20 = regs x R20 \<and> regs x' R21 = regs x R21"
    and "OCR2B x' = regs x R20 \<and> OCR0B x' = regs x R19 \<and> OCR0A x' = regs x R21"
proof -
  from frame_Some[OF assms] obtain bs where "frame_post False x bs x'" ..
  then obtain t p es where
    x': "x' = x\<lparr>regs := commit_regs False (regs x) bs, clk := t, pin_out := p,
               OCR1A := NOT (byte_at 1 bs), OCR1B := NOT (byte_at 0 bs),
               OCR2A := NOT (byte_at 2 bs),
               OCR2B := (if False then NOT (byte_at 4 bs) else regs x R20),
               OCR0B := (if False then NOT (byte_at 3 bs) else regs x R19),
               OCR0A := (if False then NOT (byte_at 5 bs) else regs x R21),
               sampled := sampled x @ bs, out_edges := es\<rparr>"
    unfolding frame_post_def by blast
  show "regs x' R19 = regs x R19 \<and> regs x' R20 = regs x R20 \<and> regs x' R21 = regs x R21"
    unfolding x' by (simp add: commit_regs_def)
  show "OCR2B x' = regs x R20 \<and> OCR0B x' = regs x R19 \<and> OCR0A x' = regs x R21"
    unfolding x' by simp
qed

lemma frames_one_led_off:
  "frames n False inp s = Some s' \<Longrightarrow>
   regs s R19 = 255 \<and> regs s R20 = 255 \<and> regs s R21 = 255 \<and>
   OCR2B s = 255 \<and> OCR0B s = 255 \<and> OCR0A s = 255 \<Longrightarrow>
   regs s' R19 = 255 \<and> regs s' R20 = 255 \<and> regs s' R21 = 255 \<and>
   OCR2B s' = 255 \<and> OCR0B s' = 255 \<and> OCR0A s' = 255"
proof (induction n arbitrary: s)
  case 0
  then show ?case by simp
next
  case (Suc n)
  from Suc.prems(1) obtain s1 where f: "frame False inp s = Some s1"
    and r: "frames n False inp s1 = Some s'"
    by (auto simp: bind_eq_Some_conv)
  from frame_one_led_regs[OF f] Suc.prems(2)
  have "regs s1 R19 = 255 \<and> regs s1 R20 = 255 \<and> regs s1 R21 = 255 \<and>
        OCR2B s1 = 255 \<and> OCR0B s1 = 255 \<and> OCR0A s1 = 255" by simp
  from Suc.IH[OF r this] show ?case .
qed

lemma READ_BYTE_idle_None: "\<forall>t\<ge>clk s. \<not> inp t \<Longrightarrow> READ_BYTE r inp s = None"
proof (rule ccontr)
  assume low: "\<forall>t\<ge>clk s. \<not> inp t" and "READ_BYTE r inp s \<noteq> None"
  then obtain s' where "READ_BYTE r inp s = Some s'" by auto
  from READ_BYTE_needs_edge[OF this] obtain k where "inp (clk s + 3 * k)" ..
  with low show False by simp
qed

lemma capture_two_split:
  "capture_start True inp s =
     (READ_BYTE R16 inp s \<bind> READ_BYTE R17 inp \<bind> READ_BYTE R18 inp) \<bind>
     (\<lambda>s1. READ_BYTE R19 inp s1 \<bind> READ_BYTE R20 inp \<bind> READ_BYTE R21 inp)"
  by (simp add: capture_start_def)

lemma px_eq: "px = [True, False, True, False, False, True, True, False,
                    False, False, True, True, True, True, False, False,
                    False, False, False, False, True, True, True, True]"
  by (simp add: px_def msb_bits_def)

lemma sync_b_run: "wait_reset two_short_frames (start_frame True (setup_ocr cold)) = Some sync_b"
proof -
  have "\<forall>k<250. \<not> two_short_frames (clk (ldi R22 250 (start_frame True (setup_ocr cold))) + 6 * k)"
    by (auto simp: two_short_frames_def instr_defs start_frame_def setup_ocr_def cold_def intro!: ws_wave_before)
  from r_chk_idle[of _ 250, OF _ _ _ this]
  show ?thesis unfolding wait_reset_def
    by (simp add: instr_defs start_frame_def setup_ocr_def cold_def sync_b_def)
qed

lemma sync_c_run: "wait_reset two_short_frames (start_frame False (setup_ocr cold)) = Some sync_c"
proof -
  have "\<forall>k<250. \<not> two_short_frames (clk (ldi R22 250 (start_frame False (setup_ocr cold))) + 6 * k)"
    by (auto simp: two_short_frames_def instr_defs start_frame_def setup_ocr_def cold_def intro!: ws_wave_before)
  from r_chk_idle[of _ 250, OF _ _ _ this]
  show ?thesis unfolding wait_reset_def
    by (simp add: instr_defs start_frame_def setup_ocr_def cold_def sync_c_def)
qed

lemmas eval_machine = capture_start_def READ_BYTE_def READ_BIT_def eval_waits instr_defs Let_def

lemma half_b_run:
  "(READ_BYTE R16 two_short_frames sync_b \<bind> READ_BYTE R17 two_short_frames \<bind>
    READ_BYTE R18 two_short_frames) = Some half_b"
  apply (simp add: eval_machine two_short_frames_def ws_wave_def px_eq sync_b_def half_b_def
      cong: opt_bind_wcong let_weak_cong)
  apply (simp add: fun_eq_iff)
  done

lemma half_b_alone:
  "(READ_BYTE R16 one_short_frame sync_b \<bind> READ_BYTE R17 one_short_frame \<bind>
    READ_BYTE R18 one_short_frame) = Some half_b"
  apply (simp add: eval_machine one_short_frame_def ws_wave_def px_eq sync_b_def half_b_def
      cong: opt_bind_wcong let_weak_cong)
  apply (simp add: fun_eq_iff)
  done

lemma byte_b_run: "READ_BYTE R16 two_short_frames sync_b = Some byte_b"
  apply (simp add: eval_machine two_short_frames_def ws_wave_def px_eq sync_b_def byte_b_def
      cong: opt_bind_wcong let_weak_cong)
  apply (simp add: fun_eq_iff)
  done

lemma capt_b_run: "capture_start True two_short_frames sync_b = Some capt_b"
proof -
  have "(READ_BYTE R19 two_short_frames half_b \<bind> READ_BYTE R20 two_short_frames \<bind>
         READ_BYTE R21 two_short_frames) = Some capt_b"
    apply (simp add: eval_machine two_short_frames_def ws_wave_def px_eq half_b_def capt_b_def
        cong: opt_bind_wcong let_weak_cong)
    apply (simp add: fun_eq_iff)
    done
  then show ?thesis by (simp only: capture_two_split half_b_run Option.bind.simps)
qed

lemmas eval_relay = relay.simps relay_entry_def relay_rept_numeral relay_bit_eq tick_def sbi_def

lemma relay_b: "relay two_short_frames capt_b = Some (tick 771 capt_b)"
  by (simp add: eval_relay two_short_frames_def ws_wave_def px_eq capt_b_def
      cong: relay_exit.case_cong_weak)

lemma capt_c_run: "capture_start False two_short_frames sync_c = Some capt_c"
  apply (simp add: eval_machine two_short_frames_def ws_wave_def px_eq sync_c_def capt_c_def
      cong: opt_bind_wcong let_weak_cong)
  apply (simp add: fun_eq_iff)
  done

lemma relay_c: "relay two_short_frames capt_c = Some (tick 771 capt_c)"
  by (simp add: eval_relay two_short_frames_def ws_wave_def px_eq capt_c_def
      cong: relay_exit.case_cong_weak)

lemma frame_c2: "frame False two_short_frames (update_now False (tick 771 capt_c)) = Some done_c2"
  apply (simp add: frame_def eval_machine eval_relay update_now_eq
      two_short_frames_def ws_wave_def px_eq capt_c_def done_c2_def
      cong: opt_bind_wcong let_weak_cong relay_exit.case_cong_weak)
  apply (simp add: fun_eq_iff)
  done

lemma one_short_frame_quiet: "2076 \<le> t \<Longrightarrow> \<not> one_short_frame t"
proof (cases "2080 \<le> t")
  case True
  then show ?thesis unfolding one_short_frame_def
    by (intro ws_wave_after) (simp add: px_eq)
next
  case False
  assume "2076 \<le> t"
  with False have "t = 2076 \<or> t = 2077 \<or> t = 2078 \<or> t = 2079" by arith
  then show ?thesis by (auto simp: one_short_frame_def ws_wave_def px_eq)
qed

lemma bits_a_eq: "bits_a = [False, False, False, False, False, False, False, False,
                            True, True, True, True, True, True, True, True,
                            True, False, False, False, False, False, False, False]"
  by (simp add: bits_a_def msb_bits_def)

lemma sync_a_run: "wait_reset scen_a (start_frame False (setup_ocr cold)) = Some sync_a"
proof -
  have "\<forall>k<250. \<not> scen_a (clk (ldi R22 250 (start_frame False (setup_ocr cold))) + 6 * k)"
    by (auto simp: scen_a_def instr_defs start_frame_def setup_ocr_def cold_def intro!: ws_wave_before)
  from r_chk_idle[of _ 250, OF _ _ _ this]
  show ?thesis unfolding wait_reset_def
    by (simp add: instr_defs start_frame_def setup_ocr_def cold_def sync_a_def)
qed

lemma capt_a_run: "capture_start False scen_a sync_a = Some capt_a"
  apply (simp add: eval_machine scen_a_def ws_wave_def bits_a_eq relayed_a_def sync_a_def capt_a_def
      cong: opt_bind_wcong let_weak_cong)
  apply (simp add: fun_eq_iff)
  done

lemma relay_a: "relay scen_a capt_a = Some idle_a"
  by (simp add: eval_relay scen_a_def ws_wave_def bits_a_eq relayed_a_def capt_a_def idle_a_def
      edges_a_def cong: relay_exit.case_cong_weak)

lemma relay_bit_clk:
  "clk (relay_bit inp e) =
     clk e + (if inp (clk e) then (if inp (clk e + 2) then 11 else 10)
              else (if inp (clk e + 3) then 12 else 11))"
  by (subst relay_bit_eq) simp

lemma relay_bit_out:
  "pin_out (relay_bit inp e) = False"
  "out_edges (relay_bit inp e) = out_edges e @
     (if inp (clk e) then [(clk e + (if inp (clk e + 2) then 8 else 7), False)]
      else [(clk e + 3, False), (clk e + (if inp (clk e + 3) then 9 else 8), False)])"
  by (subst relay_bit_eq, simp)+

lemma at_edge:
  "clk (tick 3 (sbi (tick n s))) = clk s + (n + 5)"
  "out_edges (tick 3 (sbi (tick n s))) = out_edges s @ [(clk s + (n + 2), True)]"
  "pin_out (tick 3 (sbi (tick n s)))"
  by (simp_all add: sbi_tick tick_tick clk_tick tick_fields)

lemma cold_fields: "clk cold = 0" "out_edges cold = []" "pin_out cold = False"
  by (simp_all add: cold_def)

lemma edge_at_6:
  assumes "\<not> inp 0" and "\<not> inp 3" and "inp 6"
  shows "relay_entry inp cold = To_relay_bit (tick 3 (sbi (tick 8 cold)))"
proof -
  have lo: "\<forall>j<2. \<not> inp (clk cold + 3 * j)"
  proof (intro allI impI)
    fix j :: nat assume "j < 2"
    then have "j = 0 \<or> j = 1" by arith
    with assms show "\<not> inp (clk cold + 3 * j)" by (auto simp: cold_fields)
  qed
  have hi: "inp (clk cold + 3 * 2)" using assms by (simp add: cold_fields)
  have k: "(2::nat) < 256" by simp
  from relay_edge_step(1)[OF k hi lo] show ?thesis by simp
qed

lemma edge_state_cold:
  "clk (tick 3 (sbi (tick 8 cold))) = 13"
  "out_edges (tick 3 (sbi (tick 8 cold))) = [(10, True)]"
  by (simp_all add: at_edge cold_fields)

lemma relay_entry_c: "relay_entry two_short_frames capt_c = To_update_now (tick 771 capt_c)"
  by (simp add: relay_entry_def relay_rept_numeral tick_def sbi_def
      two_short_frames_def ws_wave_def px_eq capt_c_def)

lemma frame_b: "frame True two_short_frames sync_b = Some (update_now True (tick 771 capt_b))"
  by (simp add: frame_def capt_b_run relay_b)

lemma run_b: "run 1 True two_short_frames cold = Some (update_now True (tick 771 capt_b))"
  by (simp add: run_def sync_b_run frame_b)

lemma done_b_fields:
  "OCR1A (update_now True (tick 771 capt_b)) = NOT 60"
  "OCR1B (update_now True (tick 771 capt_b)) = NOT 166"
  "OCR2A (update_now True (tick 771 capt_b)) = NOT 15"
  "OCR2B (update_now True (tick 771 capt_b)) = NOT 60"
  "OCR0B (update_now True (tick 771 capt_b)) = NOT 166"
  "OCR0A (update_now True (tick 771 capt_b)) = NOT 15"
  "sampled (update_now True (tick 771 capt_b)) = px @ px"
  "regs (update_now True (tick 771 capt_b)) R19 = NOT 166"
  "regs (update_now True (tick 771 capt_b)) R20 = NOT 60"
  "regs (update_now True (tick 771 capt_b)) R21 = NOT 15"
  by (simp_all add: update_now_eq tick_def capt_b_def)

section \<open>The claims\<close>

text \<open>
  C1. One-pixel build: when the frame returns and the 24 bits it sampled are the bytes
  green \<open>g\<close>, red \<open>r\<close>, blue \<open>b\<close>, most significant bit first, the commit has written
  \<open>NOT r = 255 - r\<close> to OCR1A (red), \<open>NOT g\<close> to OCR1B (green) and \<open>NOT b\<close> to OCR2A
  (blue): the first captured byte goes to the green output, the second to red, the third to
  blue, each inverted. The witness is scenario A: green \<open>0x00\<close>, red \<open>0xFF\<close>, blue
  \<open>0x80\<close>, 40 relayed bits, then the idle gap.
\<close>

theorem captured_bytes_commit_inverted:
  assumes "frame False inp s = Some s'"
    and "sampled s' = sampled s @ msb_bits g @ msb_bits r @ msb_bits b"
  shows "OCR1A s' = NOT r \<and> OCR1B s' = NOT g \<and> OCR2A s' = NOT b \<and>
         OCR1A s' = 255 - r \<and> OCR1B s' = 255 - g \<and> OCR2A s' = 255 - b"
proof -
  from frame_Some[OF assms(1)] obtain bs where bs: "frame_post False s bs s'" ..
  then have "sampled s' = sampled s @ bs" unfolding frame_post_def by auto
  with assms(2) have eq: "bs = msb_bits g @ msb_bits r @ msb_bits b" by simp
  have b0: "byte_at 0 bs = g" unfolding eq by (rule byte_at_0)
  have b1: "byte_at 1 bs = r" unfolding eq using byte_at_Suc[of 0] byte_at_0 by simp
  have b2: "byte_at 2 bs = b" unfolding eq
    using byte_at_Suc[of 1] byte_at_Suc[of 0] byte_at_last by (simp add: numeral_2_eq_2)
  from bs have "OCR1A s' = NOT (byte_at 1 bs) \<and> OCR1B s' = NOT (byte_at 0 bs) \<and>
      OCR2A s' = NOT (byte_at 2 bs)"
    unfolding frame_post_def by auto
  with b0 b1 b2 show ?thesis by (simp add: com_is_NOT)
qed

theorem captured_bytes_commit_inverted_witness:
  "frame False scen_a sync_a = Some (update_now False idle_a) \<and>
   sampled (update_now False idle_a) = sampled sync_a @ msb_bits 0 @ msb_bits 255 @ msb_bits 128 \<and>
   OCR1A (update_now False idle_a) = NOT 255 \<and> OCR1B (update_now False idle_a) = NOT 0 \<and>
   OCR2A (update_now False idle_a) = NOT 128 \<and>
   OCR1A (update_now False idle_a) = 0 \<and> OCR1B (update_now False idle_a) = 255 \<and>
   OCR2A (update_now False idle_a) = 127"
proof -
  have f: "frame False scen_a sync_a = Some (update_now False idle_a)"
    by (simp add: frame_def capt_a_run relay_a)
  have m: "sampled (update_now False idle_a) =
      sampled sync_a @ msb_bits 0 @ msb_bits 255 @ msb_bits 128"
    by (simp add: update_now_eq idle_a_def capt_a_def sync_a_def bits_a_def)
  from captured_bytes_commit_inverted[OF f m] f m show ?thesis by simp
qed

text \<open>
  C2 does not hold of the code, and the code departs from its own cycle table
  (\<open>Sync cycle count\<close>, \<open>nop\<close> at cycle 13, \<open>1-bit HIGH duration=11 cycles\<close>,
  \<open>jmp relay_entry\<close> at cycles 16-18). Three pulses rise at cycle 4 and are seen by the relay
  poll at cycle 6; for all three the output is raised at cycle 10 and \<open>relay_bit\<close> starts at
  cycle 13. The 375 ns pulse (a 0) and the 812.5 ns pulse (a 1, high at both reads of
  \<open>relay_bit\<close>) are back at \<open>relay_entry\<close> at cycle 24, 18 cycles after the poll that saw
  the edge, and the 1 is relayed as a high pulse of 11 cycles. The 687.5 ns pulse (a 1 that
  falls between the reads at cycles 13 and 15) skips the balancing \<open>rjmp .+0\<close>: it is relayed
  as a high pulse of 10 cycles and is back at \<open>relay_entry\<close> at cycle 23, after 17 cycles.
\<close>

theorem relay_paths_differ:
  "relay_entry (pulse 4 10) cold = To_relay_bit (tick 3 (sbi (tick 8 cold))) \<and>
   relay_entry (pulse 4 17) cold = To_relay_bit (tick 3 (sbi (tick 8 cold))) \<and>
   relay_entry (pulse 4 15) cold = To_relay_bit (tick 3 (sbi (tick 8 cold))) \<and>
   clk (tick 3 (sbi (tick 8 cold))) = 13 \<and> out_edges (tick 3 (sbi (tick 8 cold))) = [(10, True)] \<and>
   clk (relay_bit (pulse 4 10) (tick 3 (sbi (tick 8 cold)))) = 24 \<and>
   clk (relay_bit (pulse 4 17) (tick 3 (sbi (tick 8 cold)))) = 24 \<and>
   clk (relay_bit (pulse 4 15) (tick 3 (sbi (tick 8 cold)))) = 23 \<and>
   out_edges (relay_bit (pulse 4 17) (tick 3 (sbi (tick 8 cold)))) = [(10, True), (21, False)] \<and>
   out_edges (relay_bit (pulse 4 15) (tick 3 (sbi (tick 8 cold)))) = [(10, True), (20, False)]"
proof -
  have a: "relay_entry (pulse 4 10) cold = To_relay_bit (tick 3 (sbi (tick 8 cold)))"
    by (rule edge_at_6) (simp_all add: pulse_def)
  have b: "relay_entry (pulse 4 17) cold = To_relay_bit (tick 3 (sbi (tick 8 cold)))"
    by (rule edge_at_6) (simp_all add: pulse_def)
  have c: "relay_entry (pulse 4 15) cold = To_relay_bit (tick 3 (sbi (tick 8 cold)))"
    by (rule edge_at_6) (simp_all add: pulse_def)
  have d: "clk (relay_bit (pulse 4 10) (tick 3 (sbi (tick 8 cold)))) = 24"
    by (simp add: relay_bit_clk edge_state_cold pulse_def)
  have e: "clk (relay_bit (pulse 4 17) (tick 3 (sbi (tick 8 cold)))) = 24"
    by (simp add: relay_bit_clk edge_state_cold pulse_def)
  have f: "clk (relay_bit (pulse 4 15) (tick 3 (sbi (tick 8 cold)))) = 23"
    by (simp add: relay_bit_clk edge_state_cold pulse_def)
  have g: "out_edges (relay_bit (pulse 4 17) (tick 3 (sbi (tick 8 cold)))) = [(10, True), (21, False)]"
    by (simp add: relay_bit_out edge_state_cold pulse_def)
  have h: "out_edges (relay_bit (pulse 4 15) (tick 3 (sbi (tick 8 cold)))) = [(10, True), (20, False)]"
    by (simp add: relay_bit_out edge_state_cold pulse_def)
  from a b c d e f g h edge_state_cold show ?thesis by (simp only: simp_thms)
qed

text \<open>
  C3 as stated fails: \<open>relay_bit\<close> has no loop that waits for the input to fall. A line
  held high from cycle 4 to cycle 40 and 1-bits of 750 ns and 937.5 ns (high from cycle 4 to
  cycles 16 and 19) are all relayed alike: the output, raised at cycle 10, is dropped at
  cycle 21. The 750 ns input has fallen 5 cycles before the output drops, the 937.5 ns input
  2 cycles before it, and the held line is still high at the drop and when control is back at
  \<open>relay_entry\<close> at cycle 24.
\<close>

theorem relay_bit_drops_while_input_high:
  "relay_entry (pulse 4 40) cold = To_relay_bit (tick 3 (sbi (tick 8 cold))) \<and>
   out_edges (relay_bit (pulse 4 40) (tick 3 (sbi (tick 8 cold)))) = [(10, True), (21, False)] \<and>
   pin_out (relay_bit (pulse 4 40) (tick 3 (sbi (tick 8 cold)))) = False \<and>
   clk (relay_bit (pulse 4 40) (tick 3 (sbi (tick 8 cold)))) = 24 \<and>
   pulse 4 40 21 \<and> pulse 4 40 24 \<and>
   relay_entry (pulse 4 16) cold = To_relay_bit (tick 3 (sbi (tick 8 cold))) \<and>
   relay_entry (pulse 4 19) cold = To_relay_bit (tick 3 (sbi (tick 8 cold))) \<and>
   out_edges (relay_bit (pulse 4 16) (tick 3 (sbi (tick 8 cold)))) = [(10, True), (21, False)] \<and>
   out_edges (relay_bit (pulse 4 19) (tick 3 (sbi (tick 8 cold)))) = [(10, True), (21, False)] \<and>
   pulse 4 16 15 \<and> \<not> pulse 4 16 16 \<and> pulse 4 19 18 \<and> \<not> pulse 4 19 19"
proof -
  have a: "relay_entry (pulse 4 40) cold = To_relay_bit (tick 3 (sbi (tick 8 cold)))"
    by (rule edge_at_6) (simp_all add: pulse_def)
  have b: "out_edges (relay_bit (pulse 4 40) (tick 3 (sbi (tick 8 cold)))) = [(10, True), (21, False)]"
    by (simp add: relay_bit_out edge_state_cold pulse_def)
  have c: "clk (relay_bit (pulse 4 40) (tick 3 (sbi (tick 8 cold)))) = 24"
    by (simp add: relay_bit_clk edge_state_cold pulse_def)
  have d: "pulse 4 40 21" "pulse 4 40 24" "pulse 4 16 15" "\<not> pulse 4 16 16" "pulse 4 19 18"
    "\<not> pulse 4 19 19" by (simp_all add: pulse_def)
  have e: "relay_entry (pulse 4 16) cold = To_relay_bit (tick 3 (sbi (tick 8 cold)))"
    by (rule edge_at_6) (simp_all add: pulse_def)
  have f: "relay_entry (pulse 4 19) cold = To_relay_bit (tick 3 (sbi (tick 8 cold)))"
    by (rule edge_at_6) (simp_all add: pulse_def)
  have g: "out_edges (relay_bit (pulse 4 16) (tick 3 (sbi (tick 8 cold)))) = [(10, True), (21, False)]"
    by (simp add: relay_bit_out edge_state_cold pulse_def)
  have h: "out_edges (relay_bit (pulse 4 19) (tick 3 (sbi (tick 8 cold)))) = [(10, True), (21, False)]"
    by (simp add: relay_bit_out edge_state_cold pulse_def)
  from a b c d e f g h relay_bit_out(1) show ?thesis by (simp only: simp_thms)
qed

text \<open>
  C3, amended. After the post-edge read at cycle \<open>clk s\<close>: if the input has fallen, the
  output is dropped at once (the \<open>cbi\<close> ends 3 cycles after the read); otherwise, the input
  still high at that read and at the read two cycles later, the forwarder does not wait for
  the input to fall: it drops the output a fixed 8 cycles after the post-edge read and is back
  at \<open>relay_entry\<close> 11 cycles after it, whatever the input does afterwards.
\<close>

theorem relay_bit_drops_output_on_schedule:
  "pin_out (relay_bit inp s) = False \<and>
   (\<not> inp (clk s) \<longrightarrow>
      (\<exists>t. out_edges (relay_bit inp s) = out_edges s @ [(clk s + 3, False), (t, False)])) \<and>
   (inp (clk s) \<and> inp (clk s + 2) \<longrightarrow>
      out_edges (relay_bit inp s) = out_edges s @ [(clk s + 8, False)] \<and>
      clk (relay_bit inp s) = clk s + 11 \<and>
      (\<forall>inp'. inp' (clk s) \<and> inp' (clk s + 2) \<longrightarrow> relay_bit inp' s = relay_bit inp s))"
proof (intro conjI allI impI)
  show "pin_out (relay_bit inp s) = False" by (rule relay_bit_out)
next
  assume "\<not> inp (clk s)"
  then have "out_edges (relay_bit inp s) = out_edges s @
      [(clk s + 3, False), (clk s + (if inp (clk s + 3) then 9 else 8), False)]"
    by (simp add: relay_bit_out)
  then show "\<exists>t. out_edges (relay_bit inp s) = out_edges s @ [(clk s + 3, False), (t, False)]"
    by blast
next
  assume h: "inp (clk s) \<and> inp (clk s + 2)"
  then show "out_edges (relay_bit inp s) = out_edges s @ [(clk s + 8, False)]"
    by (simp add: relay_bit_out)
  from h show "clk (relay_bit inp s) = clk s + 11" by (simp add: relay_bit_clk)
  fix inp' assume "inp' (clk s) \<and> inp' (clk s + 2)"
  with h show "relay_bit inp' s = relay_bit inp s" by (simp add: relay_bit_eq)
qed

theorem relay_bit_drops_output_on_schedule_witness:
  "pulse 4 40 (clk (tick 3 (sbi (tick 8 cold)))) \<and> pulse 4 40 (clk (tick 3 (sbi (tick 8 cold))) + 2) \<and>
   pulse 4 17 (clk (tick 3 (sbi (tick 8 cold)))) \<and> pulse 4 17 (clk (tick 3 (sbi (tick 8 cold))) + 2) \<and>
   relay_bit (pulse 4 17) (tick 3 (sbi (tick 8 cold))) = relay_bit (pulse 4 40) (tick 3 (sbi (tick 8 cold))) \<and>
   out_edges (relay_bit (pulse 4 40) (tick 3 (sbi (tick 8 cold)))) = [(10, True), (21, False)] \<and>
   clk (relay_bit (pulse 4 40) (tick 3 (sbi (tick 8 cold)))) = 24 \<and>
   \<not> pulse 4 10 (clk (tick 3 (sbi (tick 8 cold)))) \<and>
   out_edges (relay_bit (pulse 4 10) (tick 3 (sbi (tick 8 cold)))) = [(10, True), (16, False), (21, False)]"
proof -
  have p: "pulse 4 40 (clk (tick 3 (sbi (tick 8 cold)))) \<and> pulse 4 40 (clk (tick 3 (sbi (tick 8 cold))) + 2)"
    "pulse 4 17 (clk (tick 3 (sbi (tick 8 cold)))) \<and> pulse 4 17 (clk (tick 3 (sbi (tick 8 cold))) + 2)"
    "\<not> pulse 4 10 (clk (tick 3 (sbi (tick 8 cold))))"
    by (simp_all add: edge_state_cold pulse_def)
  note high = relay_bit_drops_output_on_schedule[of "pulse 4 40" "tick 3 (sbi (tick 8 cold))",
      THEN conjunct2, THEN conjunct2, THEN mp, OF p(1)]
  from high have a: "out_edges (relay_bit (pulse 4 40) (tick 3 (sbi (tick 8 cold)))) = [(10, True), (21, False)]"
    by (simp add: edge_state_cold)
  from high have b: "clk (relay_bit (pulse 4 40) (tick 3 (sbi (tick 8 cold)))) = 24"
    by (simp add: edge_state_cold)
  from high p(2) have c: "relay_bit (pulse 4 17) (tick 3 (sbi (tick 8 cold))) = relay_bit (pulse 4 40) (tick 3 (sbi (tick 8 cold)))"
    by blast
  from relay_bit_drops_output_on_schedule[of "pulse 4 10" "tick 3 (sbi (tick 8 cold))",
      THEN conjunct2, THEN conjunct1, THEN mp, OF p(3)]
  obtain t where "out_edges (relay_bit (pulse 4 10) (tick 3 (sbi (tick 8 cold)))) =
      out_edges (tick 3 (sbi (tick 8 cold))) @ [(clk (tick 3 (sbi (tick 8 cold))) + 3, False), (t, False)]" ..
  moreover have "out_edges (relay_bit (pulse 4 10) (tick 3 (sbi (tick 8 cold)))) = [(10, True), (16, False), (21, False)]"
    by (simp add: relay_bit_out edge_state_cold pulse_def)
  ultimately have d: "out_edges (relay_bit (pulse 4 10) (tick 3 (sbi (tick 8 cold)))) =
      [(10, True), (16, False), (21, False)]" by simp
  from p a b c d show ?thesis by (simp only: simp_thms)
qed

text \<open>
  C4. In the relay phase, for every input: if the line is low at all 256 checks, three
  cycles apart, \<open>relay_entry\<close> goes to \<open>update_now\<close> and the relay phase returns, 771
  cycles after it was entered; the commit runs once and the frame that follows cannot return
  (so no second commit can happen) unless the line goes high after that commit. If the line is
  high at check \<open>k\<close> and low at the checks before it, control goes to \<open>relay_bit\<close> and
  from there back to \<open>relay_entry\<close>, that is to all 256 checks again, with the compare
  registers untouched.
\<close>

theorem relay_idle_or_edge:
  "((\<forall>k<256. \<not> inp (clk s + 3 * k)) \<longrightarrow>
      relay_entry inp s = To_update_now (tick 771 s) \<and> relay inp s = Some (tick 771 s) \<and>
      (\<forall>s'. frame two_leds inp (update_now two_leds (tick 771 s)) = Some s' \<longrightarrow>
            (\<exists>t \<ge> clk (update_now two_leds (tick 771 s)). inp t))) \<and>
   (\<forall>k<256. inp (clk s + 3 * k) \<and> (\<forall>j<k. \<not> inp (clk s + 3 * j)) \<longrightarrow>
      relay_entry inp s = To_relay_bit (tick 3 (sbi (tick (3 * k + 2) s))) \<and>
      relay inp s = relay inp (relay_bit inp (tick 3 (sbi (tick (3 * k + 2) s)))) \<and>
      relay_entry inp (relay_bit inp (tick 3 (sbi (tick (3 * k + 2) s)))) =
        relay_rept 256 inp (relay_bit inp (tick 3 (sbi (tick (3 * k + 2) s)))) \<and>
      duty (relay_bit inp (tick 3 (sbi (tick (3 * k + 2) s)))) = duty s)"
proof (intro conjI allI impI)
  assume idle: "\<forall>k<256. \<not> inp (clk s + 3 * k)"
  show "relay_entry inp s = To_update_now (tick 771 s)" by (rule relay_idle_exit[OF idle])
  show "relay inp s = Some (tick 771 s)" by (rule relay_idle_exit[OF idle])
  fix s' assume "frame two_leds inp (update_now two_leds (tick 771 s)) = Some s'"
  then show "\<exists>t \<ge> clk (update_now two_leds (tick 771 s)). inp t" by (rule frame_needs_edge)
next
  fix k assume "k < 256" and "inp (clk s + 3 * k) \<and> (\<forall>j<k. \<not> inp (clk s + 3 * j))"
  then have a: "k < 256" "inp (clk s + 3 * k)" "\<forall>j<k. \<not> inp (clk s + 3 * j)" by auto
  show "relay_entry inp s = To_relay_bit (tick 3 (sbi (tick (3 * k + 2) s)))"
    by (rule relay_edge_step[OF a])
  show "relay inp s = relay inp (relay_bit inp (tick 3 (sbi (tick (3 * k + 2) s))))"
    by (rule relay_edge_step[OF a])
  show "relay_entry inp (relay_bit inp (tick 3 (sbi (tick (3 * k + 2) s)))) =
        relay_rept 256 inp (relay_bit inp (tick 3 (sbi (tick (3 * k + 2) s))))"
    by (simp add: relay_entry_def)
  show "duty (relay_bit inp (tick 3 (sbi (tick (3 * k + 2) s)))) = duty s"
    by (simp add: duty_def relay_bit_eq instr_defs)
qed

theorem relay_idle_or_edge_witness:
  "relay two_short_frames capt_c = Some (tick 771 capt_c) \<and>
   frame False two_short_frames (update_now False (tick 771 capt_c)) = Some done_c2 \<and>
   (\<exists>t \<ge> clk (update_now False (tick 771 capt_c)). two_short_frames t) \<and>
   pulse 4 10 (clk cold + 3 * 2) \<and>
   relay_entry (pulse 4 10) cold = To_relay_bit (tick 3 (sbi (tick 8 cold))) \<and>
   duty (relay_bit (pulse 4 10) (tick 3 (sbi (tick 8 cold)))) = duty cold"
proof -
  from relay_rept_To_update[of 256 two_short_frames capt_c "tick 771 capt_c"] relay_entry_c
  have idle: "\<forall>k<256. \<not> two_short_frames (clk capt_c + 3 * k)"
    by (simp add: relay_entry_def)
  have hi: "pulse 4 10 (clk cold + 3 * 2)" by (simp add: pulse_def cold_fields)
  have lo: "\<forall>j<2. \<not> pulse 4 10 (clk cold + 3 * j)"
  proof (intro allI impI)
    fix j :: nat assume "j < 2"
    then have "j = 0 \<or> j = 1" by arith
    then show "\<not> pulse 4 10 (clk cold + 3 * j)" by (auto simp: cold_fields pulse_def)
  qed
  have k: "(2::nat) < 256" by simp
  from relay_idle_or_edge[of two_short_frames capt_c False, THEN conjunct1, THEN mp, OF idle]
  have a: "relay two_short_frames capt_c = Some (tick 771 capt_c)"
    and b: "\<forall>s'. frame False two_short_frames (update_now False (tick 771 capt_c)) = Some s' \<longrightarrow>
            (\<exists>t \<ge> clk (update_now False (tick 771 capt_c)). two_short_frames t)"
    by blast+
  from b frame_c2 have c: "\<exists>t \<ge> clk (update_now False (tick 771 capt_c)). two_short_frames t"
    by blast
  from relay_idle_or_edge[of "pulse 4 10" cold False, THEN conjunct2] k hi lo
  have d: "relay_entry (pulse 4 10) cold = To_relay_bit (tick 3 (sbi (tick (3 * 2 + 2) cold)))"
    and e: "duty (relay_bit (pulse 4 10) (tick 3 (sbi (tick (3 * 2 + 2) cold)))) = duty cold"
    by blast+
  from a frame_c2 c hi d e show ?thesis by simp
qed

text \<open>
  C5. With the output pin low at power-on, after any number of frames: the pin is low when
  the capture ends and \<open>relay_entry\<close> starts to wait for the first edge, it is low every
  time \<open>relay_bit\<close> jumps back to \<open>relay_entry\<close>, and it is low when the relay phase
  leaves for \<open>update_now\<close>.
\<close>

theorem output_low_when_relay_waits_or_exits:
  assumes "\<not> pin_out s0" and "run n two_leds inp s0 = Some s"
    and "capture_start two_leds inp s = Some s1"
  shows "\<not> pin_out s1 \<and> (\<forall>e. \<not> pin_out (relay_bit inp e)) \<and>
         (\<forall>s2. relay inp s1 = Some s2 \<longrightarrow> \<not> pin_out s2)"
proof -
  from assms(2) obtain p where p: "wait_reset inp (start_frame two_leds (setup_ocr s0)) = Some p"
    and f: "frames n two_leds inp p = Some s" by (rule run_split)
  from power_on_fields(1)[OF p] assms(1) have "\<not> pin_out p" by simp
  from frames_pin[OF f this] have s: "\<not> pin_out s" .
  from capture_start_Some[OF assms(3)] obtain bs where "capture_post two_leds s bs s1" ..
  then have "pin_out s1 = pin_out s" unfolding capture_post_def by auto
  with s have s1: "\<not> pin_out s1" by simp
  have "\<not> pin_out s2" if "relay inp s1 = Some s2" for s2
  proof -
    from relay_Some[OF that] obtain t q es where "q \<longrightarrow> pin_out s1"
      "s2 = s1\<lparr>clk := t, pin_out := q, out_edges := es\<rparr>"
      unfolding relay_post_def by blast
    with s1 show ?thesis by simp
  qed
  moreover have "\<not> pin_out (relay_bit inp e)" for e by (subst relay_bit_eq) simp
  ultimately show ?thesis using s1 by blast
qed

theorem output_low_when_relay_waits_or_exits_witness:
  "\<not> pin_out cold \<and> run 0 False scen_a cold = Some sync_a \<and>
   capture_start False scen_a sync_a = Some capt_a \<and> relay scen_a capt_a = Some idle_a \<and>
   \<not> pin_out capt_a \<and> \<not> pin_out idle_a \<and> \<not> pin_out (relay_bit scen_a capt_a)"
proof -
  have c: "\<not> pin_out cold" by (simp add: cold_def)
  have r: "run 0 False scen_a cold = Some sync_a" by (simp add: run_def sync_a_run)
  from output_low_when_relay_waits_or_exits[OF c r capt_a_run] c r capt_a_run relay_a
  show ?thesis by blast
qed

text \<open>
  C6. \<open>READ_BYTE\<close> samples exactly 8 bits, and the register it leaves is
  \<open>b1 * 128 + b2 * 64 + ... + b8\<close> for the bits \<open>b1 .. b8\<close> in arrival order, whatever
  the register held before. The capture samples 8 bits for each of 3 bytes in the one-pixel
  build and for each of 6 bytes in the two-pixel build.
\<close>

theorem READ_BYTE_msb_first:
  "(READ_BYTE r inp s = Some s' \<longrightarrow> sampled s' = sampled s @ [b1, b2, b3, b4, b5, b6, b7, b8] \<longrightarrow>
      unat (regs s' r) = 128 * of_bool b1 + 64 * of_bool b2 + 32 * of_bool b3 + 16 * of_bool b4 +
                         8 * of_bool b5 + 4 * of_bool b6 + 2 * of_bool b7 + of_bool b8) \<and>
   (READ_BYTE r inp s = Some s' \<longrightarrow> length (sampled s') = length (sampled s) + 8) \<and>
   (capture_start two_leds inp s = Some s'' \<longrightarrow>
      length (sampled s'') = length (sampled s) + 8 * (if two_leds then 6 else 3))"
proof (intro conjI impI)
  assume a: "READ_BYTE r inp s = Some s'"
  from READ_BYTE_Some[OF a] obtain bs where bs: "byte_post r s bs s'" ..
  then show "length (sampled s') = length (sampled s) + 8"
    unfolding byte_post_def by auto
  assume b: "sampled s' = sampled s @ [b1, b2, b3, b4, b5, b6, b7, b8]"
  from bs have "sampled s' = sampled s @ bs" and r: "regs s' r = of_nat (msb_val bs)"
    unfolding byte_post_def by auto
  with b have "bs = [b1, b2, b3, b4, b5, b6, b7, b8]" by simp
  with r have "regs s' r = of_nat (128 * of_bool b1 + 64 * of_bool b2 + 32 * of_bool b3 +
      16 * of_bool b4 + 8 * of_bool b5 + 4 * of_bool b6 + 2 * of_bool b7 + of_bool b8)"
    by (simp only: msb_val_8)
  then show "unat (regs s' r) = 128 * of_bool b1 + 64 * of_bool b2 + 32 * of_bool b3 +
      16 * of_bool b4 + 8 * of_bool b5 + 4 * of_bool b6 + 2 * of_bool b7 + of_bool b8"
    by (simp add: unat_of_nat)
next
  assume "capture_start two_leds inp s = Some s''"
  from capture_start_Some[OF this] obtain bs where "capture_post two_leds s bs s''" ..
  then show "length (sampled s'') = length (sampled s) + 8 * (if two_leds then 6 else 3)"
    unfolding capture_post_def by auto
qed

theorem READ_BYTE_msb_first_witness:
  "READ_BYTE R16 two_short_frames sync_b = Some byte_b \<and>
   sampled byte_b = sampled sync_b @ [True, False, True, False, False, True, True, False] \<and>
   unat (regs byte_b R16) = 128 + 32 + 4 + 2 \<and>
   length (sampled byte_b) = length (sampled sync_b) + 8 \<and>
   capture_start True two_short_frames sync_b = Some capt_b \<and>
   length (sampled capt_b) = length (sampled sync_b) + 48"
proof -
  have m: "sampled byte_b = sampled sync_b @ [True, False, True, False, False, True, True, False]"
    by (simp add: byte_b_def sync_b_def)
  from READ_BYTE_msb_first[of R16 two_short_frames sync_b byte_b True False True False False
      True True False True capt_b] byte_b_run capt_b_run m
  show ?thesis by simp
qed

text \<open>
  C7. One-pixel build: \<open>start_frame\<close> loads 255 into \<open>r19\<close>, \<open>r20\<close>, \<open>r21\<close> whatever
  the state and without reading the input; neither the capture nor a whole frame writes
  these registers (\<open>start_frame\<close> is outside the loop, \<open>update_now\<close> jumps to
  \<open>capture_start\<close>); from power-on, before the first frame and after every commit, the
  three registers and the three compare registers of the second pixel hold 255. The commit
  itself stores \<open>r20\<close>, \<open>r19\<close>, \<open>r21\<close> into \<open>OCR2B\<close>, \<open>OCR0B\<close>, \<open>OCR0A\<close> and leaves the
  registers as they were, so a frame ends with the three compare registers equal to the
  registers at its start; and the commit of every frame that follows power-on writes 255 to
  the three compare registers whatever they held before it.
\<close>

theorem second_pixel_stays_off_one_led:
  "(\<forall>x. regs (start_frame False x) R19 = 255 \<and> regs (start_frame False x) R20 = 255 \<and>
        regs (start_frame False x) R21 = 255) \<and>
   (\<forall>x x'. capture_start False inp x = Some x' \<longrightarrow>
        regs x' R19 = regs x R19 \<and> regs x' R20 = regs x R20 \<and> regs x' R21 = regs x R21) \<and>
   (\<forall>x x'. frame False inp x = Some x' \<longrightarrow>
        regs x' R19 = regs x R19 \<and> regs x' R20 = regs x R20 \<and> regs x' R21 = regs x R21) \<and>
   (run n False inp s0 = Some s \<longrightarrow>
        regs s R19 = 255 \<and> regs s R20 = 255 \<and> regs s R21 = 255 \<and>
        OCR2B s = 255 \<and> OCR0B s = 255 \<and> OCR0A s = 255) \<and>
   (\<forall>x. OCR2B (update_now False x) = regs x R20 \<and> OCR0B (update_now False x) = regs x R19 \<and>
        OCR0A (update_now False x) = regs x R21 \<and>
        regs (update_now False x) R19 = regs x R19 \<and> regs (update_now False x) R20 = regs x R20 \<and>
        regs (update_now False x) R21 = regs x R21) \<and>
   (\<forall>x x'. frame False inp x = Some x' \<longrightarrow>
        OCR2B x' = regs x R20 \<and> OCR0B x' = regs x R19 \<and> OCR0A x' = regs x R21) \<and>
   (run n False inp s0 = Some s \<longrightarrow>
      (\<forall>c i. capture_start False inp s = Some c \<longrightarrow> relay inp c = Some i \<longrightarrow>
         (\<forall>v1 v2 v3.
            OCR2B (update_now False (i\<lparr>OCR2B := v1, OCR0B := v2, OCR0A := v3\<rparr>)) = 255 \<and>
            OCR0B (update_now False (i\<lparr>OCR2B := v1, OCR0B := v2, OCR0A := v3\<rparr>)) = 255 \<and>
            OCR0A (update_now False (i\<lparr>OCR2B := v1, OCR0B := v2, OCR0A := v3\<rparr>)) = 255)))"
proof (intro conjI allI impI)
  fix x
  show "regs (start_frame False x) R19 = 255" "regs (start_frame False x) R20 = 255"
    "regs (start_frame False x) R21 = 255"
    by (simp_all add: start_frame_def instr_defs)
  show "OCR2B (update_now False x) = regs x R20" "OCR0B (update_now False x) = regs x R19"
    "OCR0A (update_now False x) = regs x R21" "regs (update_now False x) R19 = regs x R19"
    "regs (update_now False x) R20 = regs x R20" "regs (update_now False x) R21 = regs x R21"
    by (simp_all add: update_now_eq)
next
  fix x x' assume "capture_start False inp x = Some x'"
  from capture_start_Some[OF this] obtain bs where "capture_post False x bs x'" ..
  then have "regs x' = capture_regs False (regs x) bs" unfolding capture_post_def by auto
  then show "regs x' R19 = regs x R19" "regs x' R20 = regs x R20" "regs x' R21 = regs x R21"
    by (simp_all add: capture_regs_def)
next
  fix x x' assume f: "frame False inp x = Some x'"
  from frame_one_led_regs(1)[OF f]
  show "regs x' R19 = regs x R19" "regs x' R20 = regs x R20" "regs x' R21 = regs x R21"
    by simp_all
next
  fix x x' assume f: "frame False inp x = Some x'"
  from frame_one_led_regs(2)[OF f]
  show "OCR2B x' = regs x R20" "OCR0B x' = regs x R19" "OCR0A x' = regs x R21"
    by simp_all
next
  assume "run n False inp s0 = Some s"
  then obtain p where p: "wait_reset inp (start_frame False (setup_ocr s0)) = Some p"
    and f: "frames n False inp p = Some s" by (rule run_split)
  from power_on_fields(2,3,4)[OF p] power_on_fields(5)[OF p]
  have "regs p R19 = 255 \<and> regs p R20 = 255 \<and> regs p R21 = 255 \<and>
        OCR2B p = 255 \<and> OCR0B p = 255 \<and> OCR0A p = 255" by simp
  from frames_one_led_off[OF f this]
  show "regs s R19 = 255" "regs s R20 = 255" "regs s R21 = 255"
    "OCR2B s = 255" "OCR0B s = 255" "OCR0A s = 255" by simp_all
next
  fix c i v1 v2 v3
  assume "run n False inp s0 = Some s"
  then obtain p where p: "wait_reset inp (start_frame False (setup_ocr s0)) = Some p"
    and f: "frames n False inp p = Some s" by (rule run_split)
  from power_on_fields(2,3,4)[OF p] power_on_fields(5)[OF p]
  have "regs p R19 = 255 \<and> regs p R20 = 255 \<and> regs p R21 = 255 \<and>
        OCR2B p = 255 \<and> OCR0B p = 255 \<and> OCR0A p = 255" by simp
  from frames_one_led_off[OF f this]
  have s: "regs s R19 = 255" "regs s R20 = 255" "regs s R21 = 255" by simp_all
  assume "capture_start False inp s = Some c"
  from capture_start_Some[OF this] obtain bs where "capture_post False s bs c" ..
  then have "regs c = capture_regs False (regs s) bs" unfolding capture_post_def by auto
  with s have c: "regs c R19 = 255" "regs c R20 = 255" "regs c R21 = 255"
    by (simp_all add: capture_regs_def)
  assume "relay inp c = Some i"
  from relay_Some[OF this] have "regs i = regs c" unfolding relay_post_def by auto
  with c have i: "regs i R19 = 255" "regs i R20 = 255" "regs i R21 = 255" by simp_all
  show "OCR2B (update_now False (i\<lparr>OCR2B := v1, OCR0B := v2, OCR0A := v3\<rparr>)) = 255"
    "OCR0B (update_now False (i\<lparr>OCR2B := v1, OCR0B := v2, OCR0A := v3\<rparr>)) = 255"
    "OCR0A (update_now False (i\<lparr>OCR2B := v1, OCR0B := v2, OCR0A := v3\<rparr>)) = 255"
    by (simp_all add: update_now_eq i)
qed

theorem second_pixel_stays_off_one_led_witness:
  "run 1 False scen_a cold = Some (update_now False idle_a) \<and>
   run 0 False scen_a cold = Some sync_a \<and>
   capture_start False scen_a sync_a = Some capt_a \<and>
   relay scen_a capt_a = Some idle_a \<and>
   frame False scen_a sync_a = Some (update_now False idle_a) \<and>
   regs (update_now False idle_a) R19 = 255 \<and> regs (update_now False idle_a) R20 = 255 \<and>
   regs (update_now False idle_a) R21 = 255 \<and>
   OCR2B (update_now False idle_a) = 255 \<and> OCR0B (update_now False idle_a) = 255 \<and>
   OCR0A (update_now False idle_a) = 255 \<and>
   regs capt_a R19 = regs sync_a R19 \<and> regs capt_a R20 = regs sync_a R20 \<and>
   regs capt_a R21 = regs sync_a R21 \<and>
   OCR2B (idle_a\<lparr>OCR2B := 0, OCR0B := 1, OCR0A := 2\<rparr>) = 0 \<and>
   OCR2B (update_now False (idle_a\<lparr>OCR2B := 0, OCR0B := 1, OCR0A := 2\<rparr>)) = 255 \<and>
   OCR0B (update_now False (idle_a\<lparr>OCR2B := 0, OCR0B := 1, OCR0A := 2\<rparr>)) = 255 \<and>
   OCR0A (update_now False (idle_a\<lparr>OCR2B := 0, OCR0B := 1, OCR0A := 2\<rparr>)) = 255"
proof -
  have f: "frame False scen_a sync_a = Some (update_now False idle_a)"
    by (simp add: frame_def capt_a_run relay_a)
  have r: "run 1 False scen_a cold = Some (update_now False idle_a)"
    by (simp add: run_def sync_a_run f)
  have r0: "run 0 False scen_a cold = Some sync_a" by (simp add: run_def sync_a_run)
  have z: "OCR2B (idle_a\<lparr>OCR2B := 0, OCR0B := 1, OCR0A := 2\<rparr>) = 0" by simp
  from second_pixel_stays_off_one_led[of scen_a 1 cold "update_now False idle_a"] r f capt_a_run
  have a: "regs (update_now False idle_a) R19 = 255 \<and> regs (update_now False idle_a) R20 = 255 \<and>
   regs (update_now False idle_a) R21 = 255 \<and>
   OCR2B (update_now False idle_a) = 255 \<and> OCR0B (update_now False idle_a) = 255 \<and>
   OCR0A (update_now False idle_a) = 255 \<and>
   regs capt_a R19 = regs sync_a R19 \<and> regs capt_a R20 = regs sync_a R20 \<and>
   regs capt_a R21 = regs sync_a R21" by blast
  from second_pixel_stays_off_one_led[of scen_a 0 cold sync_a] r0 capt_a_run relay_a
  have b: "OCR2B (update_now False (idle_a\<lparr>OCR2B := 0, OCR0B := 1, OCR0A := 2\<rparr>)) = 255 \<and>
   OCR0B (update_now False (idle_a\<lparr>OCR2B := 0, OCR0B := 1, OCR0A := 2\<rparr>)) = 255 \<and>
   OCR0A (update_now False (idle_a\<lparr>OCR2B := 0, OCR0B := 1, OCR0A := 2\<rparr>)) = 255" by blast
  from r r0 capt_a_run relay_a f a z b show ?thesis by (simp only: simp_thms)
qed

text \<open>
  C8 as stated fails. Two-pixel build, one pixel sent and then an idle gap of 70 us: the
  capture is still waiting for bit 25 when the gap ends, takes the next frame's pixel for
  the second pixel, and the one commit that follows writes \<open>NOT 0x3C\<close>, \<open>NOT 0xA6\<close>,
  \<open>NOT 0x0F\<close> to the second pixel's compare registers, which \<open>setup\<close> had left at 255.
\<close>

theorem short_frame_turns_second_pixel_on:
  "run 1 True two_short_frames cold = Some (update_now True (tick 771 capt_b)) \<and>
   sampled (update_now True (tick 771 capt_b)) = px @ px \<and>
   OCR2B (setup_ocr cold) = 255 \<and> OCR0B (setup_ocr cold) = 255 \<and> OCR0A (setup_ocr cold) = 255 \<and>
   OCR2B (update_now True (tick 771 capt_b)) = 195 \<and>
   OCR0B (update_now True (tick 771 capt_b)) = 89 \<and>
   OCR0A (update_now True (tick 771 capt_b)) = 240"
  using run_b by (simp add: done_b_fields setup_ocr_def cold_def)

text \<open>
  C8, amended. Two-pixel build, 24 bits captured into \<open>r16\<close>, \<open>r17\<close>, \<open>r18\<close>. If the
  line then stays low, the capture and the frame never return: nothing is committed. If the
  frame does return, the line went high again after bit 24, the frame sampled 48 bits, the
  first three registers held the first 24 of them, and the commit wrote the inverse of bytes
  1 to 3 to the first pixel and the inverse of bytes 4 to 6 to the second pixel.
\<close>

theorem short_frame_two_leds:
  assumes "(READ_BYTE R16 inp s \<bind> READ_BYTE R17 inp \<bind> READ_BYTE R18 inp) = Some s1"
  shows "((\<forall>t\<ge>clk s1. \<not> inp t) \<longrightarrow>
            capture_start True inp s = None \<and> frame True inp s = None) \<and>
         (\<forall>s'. frame True inp s = Some s' \<longrightarrow>
            (\<exists>t\<ge>clk s1. inp t) \<and>
            (\<exists>bs. length bs = 48 \<and> sampled s' = sampled s @ bs \<and>
                  sampled s1 = sampled s @ take 24 bs \<and>
                  regs s1 R16 = byte_at 0 bs \<and> regs s1 R17 = byte_at 1 bs \<and>
                  regs s1 R18 = byte_at 2 bs \<and>
                  OCR1B s' = NOT (byte_at 0 bs) \<and> OCR1A s' = NOT (byte_at 1 bs) \<and>
                  OCR2A s' = NOT (byte_at 2 bs) \<and>
                  OCR0B s' = NOT (byte_at 3 bs) \<and> OCR2B s' = NOT (byte_at 4 bs) \<and>
                  OCR0A s' = NOT (byte_at 5 bs)))"
proof (intro conjI allI impI)
  assume low: "\<forall>t\<ge>clk s1. \<not> inp t"
  from READ_BYTE_idle_None[OF low] have "READ_BYTE R19 inp s1 = None" .
  then show c: "capture_start True inp s = None"
    by (simp only: capture_two_split assms Option.bind.simps)
  then show "frame True inp s = None" by (simp add: frame_def)
next
  fix s' assume f: "frame True inp s = Some s'"
  then obtain c where c: "capture_start True inp s = Some c"
    unfolding frame_def by (auto simp: bind_eq_Some_conv)
  with assms have second: "(READ_BYTE R19 inp s1 \<bind> READ_BYTE R20 inp \<bind> READ_BYTE R21 inp) = Some c"
    by (simp only: capture_two_split Option.bind.simps)
  then obtain c1 where "READ_BYTE R19 inp s1 = Some c1" by (auto simp: bind_eq_Some_conv)
  from READ_BYTE_needs_edge[OF this] obtain k where "inp (clk s1 + 3 * k)" ..
  then show "\<exists>t\<ge>clk s1. inp t" by (intro exI[where x="clk s1 + 3 * k"]) simp
  from three_bytes[OF assms] obtain b1 t1 where b1: "length b1 = 24"
    "s1 = s\<lparr>regs := (regs s)(R16 := byte_at 0 b1, R17 := byte_at 1 b1, R18 := byte_at 2 b1),
            clk := t1, sampled := sampled s @ b1\<rparr>" by blast
  from frame_Some[OF f] obtain bs where bs: "frame_post True s bs s'" ..
  then obtain t p es where len: "length bs = 48" and
    s': "s' = s\<lparr>regs := commit_regs True (regs s) bs, clk := t, pin_out := p,
               OCR1A := NOT (byte_at 1 bs), OCR1B := NOT (byte_at 0 bs),
               OCR2A := NOT (byte_at 2 bs),
               OCR2B := (if True then NOT (byte_at 4 bs) else regs s R20),
               OCR0B := (if True then NOT (byte_at 3 bs) else regs s R19),
               OCR0A := (if True then NOT (byte_at 5 bs) else regs s R21),
               sampled := sampled s @ bs, out_edges := es\<rparr>"
    unfolding frame_post_def by auto
  from capture_start_Some[OF c] obtain cs where cs: "capture_post True s cs c" ..
  then have sc: "sampled c = sampled s @ cs" unfolding capture_post_def by auto
  from f c obtain r where "relay inp c = Some r" and "s' = update_now True r"
    unfolding frame_def by (auto simp: bind_eq_Some_conv)
  with relay_Some[of inp c r] have "sampled s' = sampled c"
    unfolding relay_post_def by (auto simp: update_now_eq)
  with sc s' have "cs = bs" by simp
  from three_bytes[OF second] obtain b2 where "sampled c = sampled s1 @ b2" by auto
  with sc b1(2) \<open>cs = bs\<close> have "bs = b1 @ b2" by simp
  with b1(1) have tk: "take 24 bs = b1" by simp
  have pre: "byte_at 0 bs = byte_at 0 b1 \<and> byte_at 1 bs = byte_at 1 b1 \<and> byte_at 2 bs = byte_at 2 b1"
    unfolding \<open>bs = b1 @ b2\<close> using b1(1) by (simp add: byte_at_def)
  show "\<exists>bs. length bs = 48 \<and> sampled s' = sampled s @ bs \<and>
                  sampled s1 = sampled s @ take 24 bs \<and>
                  regs s1 R16 = byte_at 0 bs \<and> regs s1 R17 = byte_at 1 bs \<and>
                  regs s1 R18 = byte_at 2 bs \<and>
                  OCR1B s' = NOT (byte_at 0 bs) \<and> OCR1A s' = NOT (byte_at 1 bs) \<and>
                  OCR2A s' = NOT (byte_at 2 bs) \<and>
                  OCR0B s' = NOT (byte_at 3 bs) \<and> OCR2B s' = NOT (byte_at 4 bs) \<and>
                  OCR0A s' = NOT (byte_at 5 bs)"
    using len tk pre unfolding s' b1(2) by (intro exI[where x=bs]) simp
qed

theorem short_frame_two_leds_witness:
  "(READ_BYTE R16 one_short_frame sync_b \<bind> READ_BYTE R17 one_short_frame \<bind>
      READ_BYTE R18 one_short_frame) = Some half_b \<and>
   capture_start True one_short_frame sync_b = None \<and>
   frame True one_short_frame sync_b = None \<and>
   (READ_BYTE R16 two_short_frames sync_b \<bind> READ_BYTE R17 two_short_frames \<bind>
      READ_BYTE R18 two_short_frames) = Some half_b \<and>
   frame True two_short_frames sync_b = Some (update_now True (tick 771 capt_b)) \<and>
   regs half_b R16 = 166 \<and> regs half_b R17 = 60 \<and> regs half_b R18 = 15 \<and>
   OCR0B (update_now True (tick 771 capt_b)) = NOT 166 \<and>
   OCR2B (update_now True (tick 771 capt_b)) = NOT 60 \<and>
   OCR0A (update_now True (tick 771 capt_b)) = NOT 15"
proof -
  have q: "\<forall>t\<ge>clk half_b. \<not> one_short_frame t"
    by (simp add: half_b_def one_short_frame_quiet)
  from short_frame_two_leds[OF half_b_alone, THEN conjunct1, THEN mp, OF q]
  have n: "capture_start True one_short_frame sync_b = None"
    "frame True one_short_frame sync_b = None" by blast+
  from short_frame_two_leds[OF half_b_run, THEN conjunct2, THEN spec, THEN mp, OF frame_b]
  have "\<exists>t\<ge>clk half_b. two_short_frames t" by blast
  with half_b_alone n half_b_run frame_b show ?thesis
    by (simp add: done_b_fields) (simp add: half_b_def)
qed

text \<open>
  C9. Two consecutive frames that sampled the same bits leave the same values in all six
  compare registers.
\<close>

theorem commit_same_for_same_capture:
  assumes "frame two_leds inp s0 = Some s1" and "frame two_leds inp s1 = Some s2"
    and "drop (length (sampled s0)) (sampled s1) = drop (length (sampled s1)) (sampled s2)"
  shows "OCR1A s2 = OCR1A s1 \<and> OCR1B s2 = OCR1B s1 \<and> OCR2A s2 = OCR2A s1 \<and>
         OCR2B s2 = OCR2B s1 \<and> OCR0B s2 = OCR0B s1 \<and> OCR0A s2 = OCR0A s1"
proof -
  from frame_Some[OF assms(1)] obtain bs where "frame_post two_leds s0 bs s1" ..
  then obtain t p es where
    s1: "s1 = s0\<lparr>regs := commit_regs two_leds (regs s0) bs, clk := t, pin_out := p,
               OCR1A := NOT (byte_at 1 bs), OCR1B := NOT (byte_at 0 bs),
               OCR2A := NOT (byte_at 2 bs),
               OCR2B := (if two_leds then NOT (byte_at 4 bs) else regs s0 R20),
               OCR0B := (if two_leds then NOT (byte_at 3 bs) else regs s0 R19),
               OCR0A := (if two_leds then NOT (byte_at 5 bs) else regs s0 R21),
               sampled := sampled s0 @ bs, out_edges := es\<rparr>"
    unfolding frame_post_def by blast
  from frame_Some[OF assms(2)] obtain cs where "frame_post two_leds s1 cs s2" ..
  then obtain t' p' es' where
    s2: "s2 = s1\<lparr>regs := commit_regs two_leds (regs s1) cs, clk := t', pin_out := p',
               OCR1A := NOT (byte_at 1 cs), OCR1B := NOT (byte_at 0 cs),
               OCR2A := NOT (byte_at 2 cs),
               OCR2B := (if two_leds then NOT (byte_at 4 cs) else regs s1 R20),
               OCR0B := (if two_leds then NOT (byte_at 3 cs) else regs s1 R19),
               OCR0A := (if two_leds then NOT (byte_at 5 cs) else regs s1 R21),
               sampled := sampled s1 @ cs, out_edges := es'\<rparr>"
    unfolding frame_post_def by blast
  have "drop (length (sampled s0)) (sampled s1) = bs" unfolding s1 by simp
  moreover have "drop (length (sampled s1)) (sampled s2) = cs" unfolding s2 by simp
  ultimately have "cs = bs" using assms(3) by simp
  show ?thesis unfolding s2 \<open>cs = bs\<close>
    by (cases two_leds) (simp_all add: s1 commit_regs_def)
qed

theorem commit_same_for_same_capture_witness:
  "frame False two_short_frames sync_c = Some (update_now False (tick 771 capt_c)) \<and>
   frame False two_short_frames (update_now False (tick 771 capt_c)) = Some done_c2 \<and>
   drop (length (sampled sync_c)) (sampled (update_now False (tick 771 capt_c))) = px \<and>
   drop (length (sampled (update_now False (tick 771 capt_c)))) (sampled done_c2) = px \<and>
   OCR1A done_c2 = OCR1A (update_now False (tick 771 capt_c)) \<and>
   OCR1B done_c2 = OCR1B (update_now False (tick 771 capt_c)) \<and>
   OCR2A done_c2 = OCR2A (update_now False (tick 771 capt_c)) \<and>
   OCR2B done_c2 = OCR2B (update_now False (tick 771 capt_c)) \<and>
   OCR0B done_c2 = OCR0B (update_now False (tick 771 capt_c)) \<and>
   OCR0A done_c2 = OCR0A (update_now False (tick 771 capt_c)) \<and>
   OCR1A done_c2 = NOT 60 \<and> OCR1B done_c2 = NOT 166 \<and> OCR2A done_c2 = NOT 15"
proof -
  have f: "frame False two_short_frames sync_c = Some (update_now False (tick 771 capt_c))"
    by (simp add: frame_def capt_c_run relay_c)
  have a: "drop (length (sampled sync_c)) (sampled (update_now False (tick 771 capt_c))) = px"
    by (simp add: update_now_eq tick_def capt_c_def sync_c_def)
  have b: "drop (length (sampled (update_now False (tick 771 capt_c)))) (sampled done_c2) = px"
    by (simp add: update_now_eq tick_def capt_c_def done_c2_def px_eq)
  have c: "OCR1A done_c2 = NOT 60 \<and> OCR1B done_c2 = NOT 166 \<and> OCR2A done_c2 = NOT 15"
    by (simp add: done_c2_def)
  from a b have "drop (length (sampled sync_c)) (sampled (update_now False (tick 771 capt_c))) =
      drop (length (sampled (update_now False (tick 771 capt_c)))) (sampled done_c2)" by simp
  from commit_same_for_same_capture[OF f frame_c2 this] f frame_c2 a b c
  show ?thesis by blast
qed

text \<open>
  C10. Two-pixel build: \<open>start_frame\<close> does nothing; \<open>wait_reset\<close>, the capture of the
  first three bytes, \<open>relay_bit\<close> and the relay phase leave \<open>r19\<close>, \<open>r20\<close>, \<open>r21\<close>
  as they were, so at the first \<open>capture_start\<close> they hold their power-on contents; and a
  frame that sampled the 48 bits \<open>bs\<close> commits the inverse of bytes 4, 5 and 6 of \<open>bs\<close> to
  OCR0B, OCR2B and OCR0A, whatever the registers held before.
\<close>

theorem second_pixel_registers_two_leds:
  "start_frame True s = s \<and>
   (wait_reset inp s = Some s' \<longrightarrow>
      regs s' R19 = regs s R19 \<and> regs s' R20 = regs s R20 \<and> regs s' R21 = regs s R21) \<and>
   ((READ_BYTE R16 inp s \<bind> READ_BYTE R17 inp \<bind> READ_BYTE R18 inp) = Some s' \<longrightarrow>
      regs s' R19 = regs s R19 \<and> regs s' R20 = regs s R20 \<and> regs s' R21 = regs s R21) \<and>
   (relay_entry inp s = To_relay_bit s' \<longrightarrow> regs s' = regs s) \<and>
   (relay_entry inp s = To_update_now s' \<longrightarrow> regs s' = regs s) \<and>
   regs (relay_bit inp s) = regs s \<and>
   (relay inp s = Some s' \<longrightarrow> regs s' = regs s) \<and>
   (run 0 True inp s0 = Some s' \<longrightarrow>
      regs s' R19 = regs s0 R19 \<and> regs s' R20 = regs s0 R20 \<and> regs s' R21 = regs s0 R21) \<and>
   (frame True inp s = Some s' \<longrightarrow> sampled s' = sampled s @ bs \<longrightarrow>
      length bs = 48 \<and>
      OCR0B s' = NOT (byte_at 3 bs) \<and> OCR2B s' = NOT (byte_at 4 bs) \<and>
      OCR0A s' = NOT (byte_at 5 bs) \<and>
      regs s' R19 = NOT (byte_at 3 bs) \<and> regs s' R20 = NOT (byte_at 4 bs) \<and>
      regs s' R21 = NOT (byte_at 5 bs))"
proof (intro conjI impI)
  show "start_frame True s = s" by (simp add: start_frame_def)
  show "regs (relay_bit inp s) = regs s" by (subst relay_bit_eq) simp
next
  assume "wait_reset inp s = Some s'"
  from wait_reset_Some[OF this] have "regs s' = (regs s)(R22 := 0)"
    unfolding reset_post_def by auto
  then show "regs s' R19 = regs s R19" "regs s' R20 = regs s R20" "regs s' R21 = regs s R21"
    by simp_all
next
  assume "(READ_BYTE R16 inp s \<bind> READ_BYTE R17 inp \<bind> READ_BYTE R18 inp) = Some s'"
  from three_bytes[OF this] obtain b where
    "regs s' = (regs s)(R16 := byte_at 0 b, R17 := byte_at 1 b, R18 := byte_at 2 b)" by auto
  then show "regs s' R19 = regs s R19" "regs s' R20 = regs s R20" "regs s' R21 = regs s R21"
    by simp_all
next
  assume "relay inp s = Some s'"
  from relay_Some[OF this] show "regs s' = regs s" unfolding relay_post_def by auto
next
  assume "relay_entry inp s = To_relay_bit s'"
  with relay_rept_To_bit[of 256 inp s s'] obtain k where "s' = tick 3 (sbi (tick (3 * k + 2) s))"
    by (auto simp: relay_entry_def)
  then show "regs s' = regs s" by (simp add: instr_defs)
next
  assume "relay_entry inp s = To_update_now s'"
  with relay_rept_To_update[of 256 inp s s'] have "s' = tick (3 * 256 + 3) s"
    by (simp add: relay_entry_def)
  then show "regs s' = regs s" by (simp add: tick_def)
next
  assume "run 0 True inp s0 = Some s'"
  then have "wait_reset inp (start_frame True (setup_ocr s0)) = Some s'"
    by (simp add: run_def bind_eq_Some_conv)
  from power_on_fields(6)[OF this]
  show "regs s' R19 = regs s0 R19" "regs s' R20 = regs s0 R20" "regs s' R21 = regs s0 R21"
    by simp_all
next
  assume f: "frame True inp s = Some s'" and sm: "sampled s' = sampled s @ bs"
  from frame_Some[OF f] obtain cs where "frame_post True s cs s'" ..
  then obtain t p es where len: "length cs = 48" and
    s': "s' = s\<lparr>regs := commit_regs True (regs s) cs, clk := t, pin_out := p,
               OCR1A := NOT (byte_at 1 cs), OCR1B := NOT (byte_at 0 cs),
               OCR2A := NOT (byte_at 2 cs),
               OCR2B := (if True then NOT (byte_at 4 cs) else regs s R20),
               OCR0B := (if True then NOT (byte_at 3 cs) else regs s R19),
               OCR0A := (if True then NOT (byte_at 5 cs) else regs s R21),
               sampled := sampled s @ cs, out_edges := es\<rparr>"
    unfolding frame_post_def by auto
  from sm have "cs = bs" unfolding s' by simp
  with len show "length bs = 48" by simp
  show "OCR0B s' = NOT (byte_at 3 bs)" "OCR2B s' = NOT (byte_at 4 bs)"
    "OCR0A s' = NOT (byte_at 5 bs)" "regs s' R19 = NOT (byte_at 3 bs)"
    "regs s' R20 = NOT (byte_at 4 bs)" "regs s' R21 = NOT (byte_at 5 bs)"
    unfolding s' \<open>cs = bs\<close> by (simp_all add: commit_regs_def)
qed

theorem second_pixel_registers_two_leds_witness:
  "wait_reset two_short_frames (start_frame True (setup_ocr cold)) = Some sync_b \<and>
   regs sync_b R19 = regs cold R19 \<and> regs sync_b R20 = regs cold R20 \<and>
   regs sync_b R21 = regs cold R21 \<and>
   (READ_BYTE R16 two_short_frames sync_b \<bind> READ_BYTE R17 two_short_frames \<bind>
      READ_BYTE R18 two_short_frames) = Some half_b \<and>
   regs half_b R19 = regs sync_b R19 \<and> regs half_b R20 = regs sync_b R20 \<and>
   regs half_b R21 = regs sync_b R21 \<and>
   relay two_short_frames capt_b = Some (tick 771 capt_b) \<and>
   regs (tick 771 capt_b) = regs capt_b \<and>
   regs (relay_bit two_short_frames capt_b) = regs capt_b \<and>
   run 0 True two_short_frames cold = Some sync_b \<and>
   frame True two_short_frames sync_b = Some (update_now True (tick 771 capt_b)) \<and>
   sampled (update_now True (tick 771 capt_b)) = sampled sync_b @ px @ px \<and>
   OCR0B (update_now True (tick 771 capt_b)) = NOT (byte_at 3 (px @ px)) \<and>
   OCR2B (update_now True (tick 771 capt_b)) = NOT (byte_at 4 (px @ px)) \<and>
   OCR0A (update_now True (tick 771 capt_b)) = NOT (byte_at 5 (px @ px))"
proof -
  have r0: "run 0 True two_short_frames cold = Some sync_b" by (simp add: run_def sync_b_run)
  have m: "sampled (update_now True (tick 771 capt_b)) = sampled sync_b @ px @ px"
    by (simp add: done_b_fields sync_b_def)
  have c: "regs sync_b R19 = regs cold R19 \<and> regs sync_b R20 = regs cold R20 \<and>
      regs sync_b R21 = regs cold R21"
    using second_pixel_registers_two_leds[of "setup_ocr cold" two_short_frames sync_b cold]
      sync_b_run r0 by blast
  have h: "regs half_b R19 = regs sync_b R19 \<and> regs half_b R20 = regs sync_b R20 \<and>
      regs half_b R21 = regs sync_b R21"
    using second_pixel_registers_two_leds[of sync_b two_short_frames half_b] half_b_run by blast
  have r: "regs (tick 771 capt_b) = regs capt_b"
    using second_pixel_registers_two_leds[of capt_b two_short_frames "tick 771 capt_b"] relay_b
    by blast
  have o: "OCR0B (update_now True (tick 771 capt_b)) = NOT (byte_at 3 (px @ px)) \<and>
      OCR2B (update_now True (tick 771 capt_b)) = NOT (byte_at 4 (px @ px)) \<and>
      OCR0A (update_now True (tick 771 capt_b)) = NOT (byte_at 5 (px @ px))"
    using second_pixel_registers_two_leds[of sync_b two_short_frames
        "update_now True (tick 771 capt_b)" _ "px @ px"] frame_b m by blast
  have b: "regs (relay_bit two_short_frames capt_b) = regs capt_b"
    using second_pixel_registers_two_leds[of capt_b two_short_frames] by blast
  from sync_b_run c half_b_run h relay_b r b r0 frame_b m o show ?thesis by blast
qed

end
